theory Spec2Isabelle
  imports Complex_Main
begin

section \<open>Errors, checked memory access and loops\<close>

text \<open>
  The C++ of \<^verbatim>\<open>DTK_Rendezvous_def.hpp\<close> reads arrays without bounds checks, divides
  integers, dereferences reference-counted pointers and dereferences the iterator
  returned by \<^verbatim>\<open>std::map::find\<close>. Each of these is undefined behaviour (or a thrown
  exception) on a bad input; the model makes every one of them a value of \<open>error\<close>.
\<close>

datatype error =
    DivideByZero          \<comment> \<open>integer division by a zero \<^verbatim>\<open>d_node_dim\<close>\<close>
  | OutOfRange            \<comment> \<open>array read or write outside the array\<close>
  | NullReference         \<comment> \<open>dereference of a null \<^verbatim>\<open>Teuchos::RCP\<close>\<close>
  | NotFound              \<comment> \<open>dereference of \<^verbatim>\<open>map.find(k)\<close> when \<^verbatim>\<open>k\<close> is not a key\<close>
  | PostconditionFailed   \<comment> \<open>\<^verbatim>\<open>testPostcondition\<close> threw\<close>
  | AssertionFailed       \<comment> \<open>an \<^verbatim>\<open>assert\<close> failed\<close>
  | CommunicationError    \<comment> \<open>the distributor was given a rank outside the communicator\<close>

definition ebind :: "error + 'a \<Rightarrow> ('a \<Rightarrow> error + 'b) \<Rightarrow> error + 'b" where
  "ebind m f = (case m of Inl e \<Rightarrow> Inl e | Inr x \<Rightarrow> f x)"

definition read_at :: "'a list \<Rightarrow> nat \<Rightarrow> error + 'a" where
  "read_at xs i = (if i < length xs then Inr (xs ! i) else Inl OutOfRange)"

definition store :: "'a list \<Rightarrow> nat \<Rightarrow> 'a \<Rightarrow> error + 'a list" where
  "store xs i v = (if i < length xs then Inr (xs[i := v]) else Inl OutOfRange)"

definition deref :: "'a option \<Rightarrow> error + 'a" where
  "deref p = (case p of None \<Rightarrow> Inl NullReference | Some x \<Rightarrow> Inr x)"

definition testPostcondition :: "bool \<Rightarrow> 'a \<Rightarrow> error + 'a" where
  "testPostcondition ok x = (if ok then Inr x else Inl PostconditionFailed)"

text \<open>
  A \<^verbatim>\<open>for\<close> loop over a range or a container: the body takes the loop variable and
  the mutable locals and returns the locals updated, or the error that stops the loop.
\<close>

fun for_loop :: "'a list \<Rightarrow> ('a \<Rightarrow> 's \<Rightarrow> error + 's) \<Rightarrow> 's \<Rightarrow> error + 's" where
  "for_loop [] body s = Inr s"
| "for_loop (n # ns) body s = ebind (body n s) (for_loop ns body)"

section \<open>Data model\<close>

type_synonym GlobalOrdinal = int

text \<open>
  Modelled from the spec: the communicator (\<^verbatim>\<open>Teuchos::Comm\<close>) is not in src; the
  spec gives it a size and a rank.
\<close>

record Comm =
  comm_size :: nat
  comm_rank :: nat

text \<open>
  Modelled from the spec: \<^verbatim>\<open>BoundingBox\<close> is not in src. The spec gives it as
  \<open>(xmin, ymin, zmin, xmax, ymax, zmax)\<close>, closed on all faces, with a point-in-box
  predicate on a three-dimensional point.
\<close>

record BoundingBox =
  xmin :: real
  ymin :: real
  zmin :: real
  xmax :: real
  ymax :: real
  zmax :: real

definition pointInBox :: "BoundingBox \<Rightarrow> real list \<Rightarrow> bool" where
  "pointInBox box p =
     (xmin box \<le> p ! 0 \<and> p ! 0 \<le> xmax box \<and>
      ymin box \<le> p ! 1 \<and> p ! 1 \<le> ymax box \<and>
      zmin box \<le> p ! 2 \<and> p ! 2 \<le> zmax box)"

text \<open>
  Modelled from the spec: the RCB partitioner is not in src. After \<^verbatim>\<open>partition()\<close>
  it is a routing function from a three-dimensional point to a rank; that function is
  taken as a parameter.
\<close>

datatype RCB = RCB (getDestinationProc: "real list \<Rightarrow> int")

text \<open>
  Modelled from the spec: the kD-tree is not in src. The spec's \<^verbatim>\<open>findPoint(p)\<close>
  returns the GlobalOrdinal of an element containing \<open>p\<close>, the smallest one when several
  contain it, or a reserved sentinel when none does; containment is the point-in-cell
  predicate of the application, taken as a parameter.
\<close>

record KDTree =
  kd_elements :: "GlobalOrdinal list"
  kd_pointInCell :: "GlobalOrdinal \<Rightarrow> real list \<Rightarrow> bool"
  kd_sentinel :: GlobalOrdinal

definition findPoint :: "KDTree \<Rightarrow> real list \<Rightarrow> GlobalOrdinal" where
  "findPoint t p =
     (case filter (\<lambda>e. kd_pointInCell t e p) (kd_elements t) of
        [] \<Rightarrow> kd_sentinel t
      | e # es \<Rightarrow> fold min es e)"

text \<open>The mesh as \<^verbatim>\<open>MeshTraits\<close> shows it: blocked coordinates and connectivity.\<close>

record mesh =
  nodeDim :: nat
  mesh_nodes :: "GlobalOrdinal list"
  mesh_coords :: "real list"
  mesh_elements :: "GlobalOrdinal list"
  nodesPerElement :: nat
  mesh_connectivity :: "GlobalOrdinal list"

text \<open>The members of \<^verbatim>\<open>Rendezvous<Mesh>\<close> that the operations below use.\<close>

record Rendezvous =
  d_comm :: Comm
  d_global_box :: BoundingBox
  d_node_dim :: nat
  d_rcb :: "RCB option"
  d_kdtree :: "KDTree option"

text \<open>The constructor: \<^verbatim>\<open>d_node_dim( 0 )\<close>, both pointers null.\<close>

definition new_Rendezvous :: "Comm \<Rightarrow> BoundingBox \<Rightarrow> Rendezvous" where
  "new_Rendezvous comm global_box =
     \<lparr> d_comm = comm, d_global_box = global_box, d_node_dim = 0,
       d_rcb = None, d_kdtree = None \<rparr>"

section \<open>The queries\<close>

text \<open>
  The inner loop \<^verbatim>\<open>point[d] = coords[ d*stride + n ]\<close> for \<open>d < ndim\<close>, and the padding loop
  \<^verbatim>\<open>point[d] = 0.0\<close> for \<open>ndim \<le> d < 3\<close>.
\<close>

definition fill_point :: "nat \<Rightarrow> real list \<Rightarrow> nat \<Rightarrow> nat \<Rightarrow> real list \<Rightarrow> error + real list" where
  "fill_point ndim cs stride n point =
     for_loop [0..<ndim] (\<lambda>d pt. ebind (read_at cs (d * stride + n)) (\<lambda>c. store pt d c)) point"

definition zero_pad :: "nat \<Rightarrow> real list \<Rightarrow> error + real list" where
  "zero_pad ndim point = for_loop [ndim..<3] (\<lambda>d pt. store pt d 0) point"

text \<open>
  \<^verbatim>\<open>double point[3]\<close> filled and padded. The buffer is not initialised in the source;
  every slot is written before the point is used, so the model starts from zeros.
\<close>

definition point3 :: "nat \<Rightarrow> real list \<Rightarrow> nat \<Rightarrow> nat \<Rightarrow> error + real list" where
  "point3 ndim cs stride n = ebind (fill_point ndim cs stride n (replicate 3 0)) (zero_pad ndim)"

definition getRendezvousProcs :: "Rendezvous \<Rightarrow> real list \<Rightarrow> error + int list" where
  "getRendezvousProcs r coords =
     (if d_node_dim r = 0 then Inl DivideByZero
      else
        let num_points = length coords div d_node_dim r in
        ebind
          (for_loop [0..<num_points]
             (\<lambda>n destination_procs.
                ebind (point3 (d_node_dim r) coords num_points n) (\<lambda>point.
                ebind (deref (d_rcb r)) (\<lambda>rcb.
                Inr (destination_procs @ [getDestinationProc rcb point]))))
             [])
          (\<lambda>destination_procs.
             testPostcondition (length destination_procs = num_points) destination_procs))"

text \<open>\<^verbatim>\<open>getElements\<close>: the point is a \<^verbatim>\<open>Teuchos::Array<double>\<close> of \<open>d_node_dim\<close> entries.\<close>

definition getElements :: "Rendezvous \<Rightarrow> real list \<Rightarrow> error + GlobalOrdinal list" where
  "getElements r coords =
     (if d_node_dim r = 0 then Inl DivideByZero
      else
        let num_points = length coords div d_node_dim r in
        ebind
          (for_loop [0..<num_points]
             (\<lambda>n element_ordinals.
                ebind (fill_point (d_node_dim r) coords num_points n
                         (replicate (d_node_dim r) 0)) (\<lambda>point.
                ebind (deref (d_kdtree r)) (\<lambda>kdtree.
                Inr (element_ordinals @ [findPoint kdtree point]))))
             [])
          (\<lambda>element_ordinals.
             testPostcondition (length element_ordinals = num_points) element_ordinals))"

text \<open>The blocked layout as the spec words it: axis \<open>k\<close> of point \<open>n\<close> at \<open>k * N + n\<close>.\<close>

definition blocked_point :: "nat \<Rightarrow> real list \<Rightarrow> nat \<Rightarrow> nat \<Rightarrow> real list" where
  "blocked_point ndim cs N n = map (\<lambda>k. cs ! (k * N + n)) [0..<ndim]"

definition padded_point :: "nat \<Rightarrow> real list \<Rightarrow> nat \<Rightarrow> nat \<Rightarrow> real list" where
  "padded_point ndim cs N n = blocked_point ndim cs N n @ replicate (3 - ndim) 0"

section \<open>Filtering the mesh by the global box\<close>

text \<open>
  \<^verbatim>\<open>std::map<GlobalOrdinal,ordinal_type>\<close> filled by \<^verbatim>\<open>indices[ *iterator ] = m; ++m\<close>:
  an ordinal that occurs twice keeps its last position.
\<close>

fun index_map :: "GlobalOrdinal list \<Rightarrow> nat \<Rightarrow> (GlobalOrdinal \<rightharpoonup> nat) \<Rightarrow> (GlobalOrdinal \<rightharpoonup> nat)" where
  "index_map [] m indices = indices"
| "index_map (g # gs) m indices = index_map gs (Suc m) (indices(g \<mapsto> m))"

definition node_indices :: "mesh \<Rightarrow> (GlobalOrdinal \<rightharpoonup> nat)" where
  "node_indices mesh = index_map (mesh_nodes mesh) 0 Map.empty"

definition element_indices :: "mesh \<Rightarrow> (GlobalOrdinal \<rightharpoonup> nat)" where
  "element_indices mesh = index_map (mesh_elements mesh) 0 Map.empty"

text \<open>\<^verbatim>\<open>indices.find( g )->second\<close>: the iterator is dereferenced without a test.\<close>

definition find_index :: "(GlobalOrdinal \<rightharpoonup> nat) \<Rightarrow> GlobalOrdinal \<Rightarrow> error + nat" where
  "find_index indices g = (case indices g of None \<Rightarrow> Inl NotFound | Some i \<Rightarrow> Inr i)"

text \<open>
  \<^verbatim>\<open>mesh_connectivity[ i*num_elements + n ]\<close> followed by the look-up of the node's
  position: the two lines that open the body of every loop over the nodes of an element.
\<close>

definition node_index_of :: "mesh \<Rightarrow> nat \<Rightarrow> nat \<Rightarrow> error + nat" where
  "node_index_of mesh i n =
     ebind (read_at (mesh_connectivity mesh) (i * length (mesh_elements mesh) + n))
       (\<lambda>node_ordinal. find_index (node_indices mesh) node_ordinal)"

text \<open>Lines 184 to 195: the geometric flag of every node.\<close>

definition nodes_in_box_loop :: "Rendezvous \<Rightarrow> mesh \<Rightarrow> BoundingBox \<Rightarrow> error + int list" where
  "nodes_in_box_loop r mesh box =
     (let num_nodes = length (mesh_nodes mesh) in
      for_loop [0..<num_nodes]
        (\<lambda>n nodes_in_box.
           ebind (point3 (d_node_dim r) (mesh_coords mesh) num_nodes n) (\<lambda>node_coords.
           Inr (nodes_in_box @ [if pointInBox box node_coords then 1 else 0])))
        [])"

text \<open>Lines 208 to 221: an element is flagged when one of its nodes is flagged.\<close>

definition elements_in_box_loop :: "mesh \<Rightarrow> int list \<Rightarrow> error + int list" where
  "elements_in_box_loop mesh nodes_in_box =
     for_loop [0..<length (mesh_elements mesh)]
       (\<lambda>n elements_in_box.
          ebind
            (for_loop [0..<nodesPerElement mesh]
               (\<lambda>i this_element_in_box.
                  ebind (node_index_of mesh i n) (\<lambda>node_index.
                  ebind (read_at nodes_in_box node_index) (\<lambda>flag.
                  Inr (if flag \<noteq> 0 then 1 else this_element_in_box))))
               0)
            (\<lambda>this_element_in_box. Inr (elements_in_box @ [this_element_in_box])))
       []"

text \<open>Lines 226 to 237: every node of a flagged element is flagged.\<close>

definition expand_nodes_loop :: "mesh \<Rightarrow> int list \<Rightarrow> int list \<Rightarrow> error + int list" where
  "expand_nodes_loop mesh elements_in_box nodes_in_box =
     for_loop [0..<length (mesh_elements mesh)]
       (\<lambda>n nodes_in_box.
          ebind (read_at elements_in_box n) (\<lambda>in_box.
          if in_box \<noteq> 0
          then for_loop [0..<nodesPerElement mesh]
                 (\<lambda>i nodes_in_box.
                    ebind (node_index_of mesh i n) (\<lambda>node_index.
                    store nodes_in_box node_index 1))
                 nodes_in_box
          else Inr nodes_in_box))
       nodes_in_box"

text \<open>The two \<^verbatim>\<open>assert\<close>s on the sizes of the arrays.\<close>

definition assert_that :: "bool \<Rightarrow> 'a \<Rightarrow> error + 'a" where
  "assert_that ok x = (if ok then Inr x else Inl AssertionFailed)"

text \<open>
  \<^verbatim>\<open>getMeshInBox\<close>; \<^verbatim>\<open>build\<close> passes it two empty arrays, which it returns filled:
  \<open>(nodes_in_box, elements_in_box)\<close>.
\<close>

definition getMeshInBox :: "Rendezvous \<Rightarrow> mesh \<Rightarrow> BoundingBox \<Rightarrow> error + int list \<times> int list" where
  "getMeshInBox r mesh box =
     ebind (nodes_in_box_loop r mesh box) (\<lambda>nodes_in_box.
     ebind (assert_that (length nodes_in_box = length (mesh_nodes mesh)) nodes_in_box) (\<lambda>nodes_in_box.
     ebind (elements_in_box_loop mesh nodes_in_box) (\<lambda>elements_in_box.
     ebind (assert_that (length elements_in_box = length (mesh_elements mesh)) elements_in_box)
       (\<lambda>elements_in_box.
     ebind (expand_nodes_loop mesh elements_in_box nodes_in_box) (\<lambda>nodes_in_box.
     Inr (nodes_in_box, elements_in_box))))))"

section \<open>The import planner\<close>

text \<open>
  \<^verbatim>\<open>std::set<int>\<close> as the ascending list of its members; \<^verbatim>\<open>sets[ k ].insert( p )\<close> on
  an array of sets.
\<close>

definition insert_at :: "int list list \<Rightarrow> nat \<Rightarrow> int \<Rightarrow> error + int list list" where
  "insert_at sets k p =
     (if k < length sets then Inr (sets[k := insort_insert p (sets ! k)]) else Inl OutOfRange)"

text \<open>Lines 393 to 413: the set of destination ranks of every element.\<close>

definition export_element_procs_set :: "Rendezvous \<Rightarrow> mesh \<Rightarrow> int list \<Rightarrow> error + int list list" where
  "export_element_procs_set r mesh elements_in_box =
     (let num_nodes = length (mesh_nodes mesh);
          num_elements = length (mesh_elements mesh)
      in
      for_loop [0..<num_elements]
        (\<lambda>n procs_set.
           ebind (read_at elements_in_box n) (\<lambda>in_box.
           if in_box \<noteq> 0
           then for_loop [0..<nodesPerElement mesh]
                  (\<lambda>i procs_set.
                     ebind (node_index_of mesh i n) (\<lambda>node_index.
                     ebind (point3 (d_node_dim r) (mesh_coords mesh) num_nodes node_index)
                       (\<lambda>node_coords.
                     ebind (deref (d_rcb r)) (\<lambda>rcb.
                     insert_at procs_set n (getDestinationProc rcb node_coords)))))
                  procs_set
           else Inr procs_set))
        (replicate num_elements []))"

text \<open>
  Lines 417 to 434 and 501 to 517: the array of sets unrolled into the two parallel
  arrays of ordinals and destinations, kept here as one array of pairs. The iterator
  over the ordinals advances with the sets and is dereferenced once per member of a set.
\<close>

definition unroll :: "GlobalOrdinal list \<Rightarrow> int list list \<Rightarrow> error + (GlobalOrdinal \<times> int) list" where
  "unroll ordinals procs_set =
     for_loop [0..<length procs_set]
       (\<lambda>k exports.
          for_loop (procs_set ! k)
            (\<lambda>p exports.
               ebind (read_at ordinals k) (\<lambda>ordinal. Inr (exports @ [(ordinal, p)])))
            exports)
       []"

text \<open>Lines 476 to 493: every node goes where the exported elements that hold it go.\<close>

definition export_node_procs_set :: "mesh \<Rightarrow> (GlobalOrdinal \<times> int) list \<Rightarrow> error + int list list" where
  "export_node_procs_set mesh exports =
     for_loop exports
       (\<lambda>(element, proc) procs_set.
          ebind (find_index (element_indices mesh) element) (\<lambda>element_index.
          for_loop [0..<nodesPerElement mesh]
            (\<lambda>i procs_set.
               ebind (node_index_of mesh i element_index) (\<lambda>node_index.
               insert_at procs_set node_index proc))
            procs_set))
       (replicate (length (mesh_nodes mesh)) [])"

text \<open>
  Lines 452 to 466 and 535 to 549: the imported ordinals are inserted into a
  \<^verbatim>\<open>std::set\<close>, which is then copied into the array in its ascending order.
\<close>

definition rendezvous_array :: "GlobalOrdinal list \<Rightarrow> GlobalOrdinal list" where
  "rendezvous_array imports = fold insort_insert imports []"

text \<open>
  Modelled from the spec: \<^verbatim>\<open>Tpetra::Distributor\<close> is not in src. The spec's distributor
  is an all-to-all built from a destination rank per item: each rank gets back the list
  of the ordinals assigned to it; a destination outside the communicator is a
  \<^verbatim>\<open>CommunicationError\<close>. The argument holds the exports of every rank, in rank order.
\<close>

definition distributor :: "nat \<Rightarrow> (GlobalOrdinal \<times> int) list list \<Rightarrow> error + GlobalOrdinal list list" where
  "distributor comm_sz exports =
     (if list_all (list_all (\<lambda>(g, p). 0 \<le> p \<and> p < int comm_sz)) exports
      then Inr (map (\<lambda>rank. concat (map (\<lambda>ex. map fst (filter (\<lambda>(g, p). p = int rank) ex)) exports))
                  [0..<comm_sz])
      else Inl CommunicationError)"

text \<open>What one rank does on its own before each of the two exchanges.\<close>

definition export_elements_of :: "Rendezvous \<Rightarrow> mesh \<Rightarrow> int list \<Rightarrow> error + (GlobalOrdinal \<times> int) list" where
  "export_elements_of r mesh elements_in_box =
     ebind (export_element_procs_set r mesh elements_in_box) (unroll (mesh_elements mesh))"

definition export_nodes_of :: "mesh \<Rightarrow> (GlobalOrdinal \<times> int) list \<Rightarrow> error + (GlobalOrdinal \<times> int) list" where
  "export_nodes_of mesh exports =
     ebind (export_node_procs_set mesh exports) (unroll (mesh_nodes mesh))"

fun mapM :: "('a \<Rightarrow> error + 'b) \<Rightarrow> 'a list \<Rightarrow> error + 'b list" where
  "mapM f [] = Inr []"
| "mapM f (x # xs) = ebind (f x) (\<lambda>y. ebind (mapM f xs) (\<lambda>ys. Inr (y # ys)))"

text \<open>
  \<^verbatim>\<open>setupImportCommunication\<close> is collective: every rank of the communicator runs it
  on its own facade, mesh and \<open>elements_in_box\<close>, and the two distributors exchange the
  exports. The model takes the arguments of all ranks, in rank order, and returns
  \<open>(rendezvous_nodes, rendezvous_elements)\<close> of every rank.
\<close>

definition setupImportCommunication ::
  "(Rendezvous \<times> mesh \<times> int list) list \<Rightarrow> error + (GlobalOrdinal list \<times> GlobalOrdinal list) list" where
  "setupImportCommunication ranks =
     ebind (mapM (\<lambda>(r, mesh, elements_in_box). export_elements_of r mesh elements_in_box) ranks)
       (\<lambda>export_elements.
     ebind (distributor (length ranks) export_elements) (\<lambda>import_elements.
     ebind (mapM (\<lambda>((r, mesh, elements_in_box), exports). export_nodes_of mesh exports)
              (zip ranks export_elements))
       (\<lambda>export_nodes.
     ebind (distributor (length ranks) export_nodes) (\<lambda>import_nodes.
     Inr (map (\<lambda>(nodes, elements). (rendezvous_array nodes, rendezvous_array elements))
            (zip import_nodes import_elements))))))"

section \<open>The notions of the specification\<close>

text \<open>Slot \<open>i\<close> of element \<open>n\<close> in the blocked connectivity, and the nodes of an element.\<close>

definition element_node :: "mesh \<Rightarrow> nat \<Rightarrow> nat \<Rightarrow> GlobalOrdinal" where
  "element_node mesh n i = mesh_connectivity mesh ! (i * length (mesh_elements mesh) + n)"

definition element_nodes :: "mesh \<Rightarrow> nat \<Rightarrow> GlobalOrdinal list" where
  "element_nodes mesh n = map (element_node mesh n) [0..<nodesPerElement mesh]"

text \<open>The zero-padded coordinates of the node in position \<open>j\<close>.\<close>

definition node_point :: "nat \<Rightarrow> mesh \<Rightarrow> nat \<Rightarrow> real list" where
  "node_point ndim mesh j = padded_point ndim (mesh_coords mesh) (length (mesh_nodes mesh)) j"

text \<open>
  A node is in-box if its coordinates lie in the box; an element is in-box if at least
  one of its nodes is.
\<close>

definition node_in_box :: "BoundingBox \<Rightarrow> nat \<Rightarrow> mesh \<Rightarrow> GlobalOrdinal \<Rightarrow> bool" where
  "node_in_box box ndim mesh g =
     (\<exists>j < length (mesh_nodes mesh). mesh_nodes mesh ! j = g \<and> pointInBox box (node_point ndim mesh j))"

definition element_in_box :: "BoundingBox \<Rightarrow> nat \<Rightarrow> mesh \<Rightarrow> nat \<Rightarrow> bool" where
  "element_in_box box ndim mesh n = (\<exists>g \<in> set (element_nodes mesh n). node_in_box box ndim mesh g)"

text \<open>
  Connectivity the code can read: an array of the blocked size whose entries name nodes
  of the mesh, and node and element ordinals that are not repeated.
\<close>

definition connectivity_ok :: "mesh \<Rightarrow> bool" where
  "connectivity_ok mesh =
     (nodesPerElement mesh * length (mesh_elements mesh) \<le> length (mesh_connectivity mesh) \<and>
      (\<forall>k < nodesPerElement mesh * length (mesh_elements mesh).
          mesh_connectivity mesh ! k \<in> set (mesh_nodes mesh)) \<and>
      distinct (mesh_nodes mesh) \<and> distinct (mesh_elements mesh))"

text \<open>
  A mesh the code can read in \<open>ndim\<close> dimensions: at most three of them, a coordinate
  array of the blocked size, and connectivity as above.
\<close>

definition mesh_ok :: "nat \<Rightarrow> mesh \<Rightarrow> bool" where
  "mesh_ok ndim mesh =
     (ndim \<le> 3 \<and>
      ndim * length (mesh_nodes mesh) \<le> length (mesh_coords mesh) \<and>
      connectivity_ok mesh)"

text \<open>
  The effect of a loop that only inserts into an array of sets: the array keeps its
  length, set \<open>k\<close> gains the members \<open>A k\<close>, and ascending sets stay ascending.
\<close>

definition adds :: "int list list \<Rightarrow> int list list \<Rightarrow> (nat \<Rightarrow> int set) \<Rightarrow> bool" where
  "adds sets sets' A \<longleftrightarrow>
     length sets' = length sets \<and>
     (\<forall>k<length sets. set (sets' ! k) = set (sets ! k) \<union> A k) \<and>
     ((\<forall>s \<in> set sets. sorted_wrt (<) s) \<longrightarrow> (\<forall>s \<in> set sets'. sorted_wrt (<) s))"

section \<open>Example inputs\<close>

definition ex_rcb :: RCB where
  "ex_rcb = RCB (\<lambda>p. if p ! 0 \<le> 1 / 2 then 0 else 1)"

definition ex_kdtree :: KDTree where
  "ex_kdtree = \<lparr> kd_elements = [10, 20],
                  kd_pointInCell = (\<lambda>e p. if e = 10 then p ! 0 \<le> 1 / 2 else 1 / 2 \<le> p ! 0 \<and> p ! 0 \<le> 1),
                  kd_sentinel = - 1 \<rparr>"

definition ex_box :: BoundingBox where
  "ex_box = \<lparr> xmin = 0, ymin = 0, zmin = 0, xmax = 1, ymax = 1, zmax = 1 \<rparr>"

definition ex_facade :: Rendezvous where
  "ex_facade = \<lparr> d_comm = \<lparr> comm_size = 2, comm_rank = 0 \<rparr>, d_global_box = ex_box,
                  d_node_dim = 2, d_rcb = Some ex_rcb, d_kdtree = Some ex_kdtree \<rparr>"

text \<open>
  Two ranks hold a chain of segments in one dimension; the box is \<open>[0, 1]\<close> and the cut
  of the partition is at \<open>x = 1/2\<close>. Element 11 straddles the cut, element 13 lies outside
  the box, node 3 is on both ranks.
\<close>

definition ex_facade1 :: Rendezvous where
  "ex_facade1 = \<lparr> d_comm = \<lparr> comm_size = 2, comm_rank = 0 \<rparr>, d_global_box = ex_box,
                   d_node_dim = 1, d_rcb = Some ex_rcb, d_kdtree = None \<rparr>"

definition ex_mesh0 :: mesh where
  "ex_mesh0 = \<lparr> nodeDim = 1, mesh_nodes = [1, 2, 3], mesh_coords = [0, 2 / 5, 4 / 5],
                 mesh_elements = [10, 11], nodesPerElement = 2,
                 mesh_connectivity = [1, 2, 2, 3] \<rparr>"

definition ex_mesh1 :: mesh where
  "ex_mesh1 = \<lparr> nodeDim = 1, mesh_nodes = [3, 4, 5], mesh_coords = [4 / 5, 6 / 5, 8 / 5],
                 mesh_elements = [12, 13], nodesPerElement = 2,
                 mesh_connectivity = [3, 4, 4, 5] \<rparr>"

text \<open>The arguments of \<^verbatim>\<open>setupImportCommunication\<close> on the two ranks.\<close>

definition ex_ranks :: "(Rendezvous \<times> mesh \<times> int list) list" where
  "ex_ranks = [(ex_facade1, ex_mesh0, [1, 1]), (ex_facade1, ex_mesh1, [1, 0])]"

text \<open>What the two ranks hold afterwards: \<open>(rendezvous_nodes, rendezvous_elements)\<close>.\<close>

definition ex_outs :: "(GlobalOrdinal list \<times> GlobalOrdinal list) list" where
  "ex_outs = [([1, 2, 3], [10, 11]), ([2, 3, 4], [11, 12])]"

text \<open>The element exports of rank 0: element 11 goes to both ranks.\<close>

definition ex_exports0 :: "(GlobalOrdinal \<times> int) list" where
  "ex_exports0 = [(10, 0), (11, 0), (11, 1)]"

section \<open>Loop lemmas\<close>

lemma ebind_Inr [simp]: "ebind (Inr x) f = f x"
  by (simp add: ebind_def)

lemma ebind_Inl [simp]: "ebind (Inl e) f = Inl e"
  by (simp add: ebind_def)

lemma ebind_eq_Inr: "ebind m f = Inr y \<longleftrightarrow> (\<exists>x. m = Inr x \<and> f x = Inr y)"
  by (cases m) simp_all

lemma ebind_eq_Inl: "ebind m f = Inl e \<longleftrightarrow> m = Inl e \<or> (\<exists>x. m = Inr x \<and> f x = Inl e)"
  by (cases m) simp_all

lemma ebind_return [simp]: "ebind m Inr = m"
  by (cases m) simp_all

lemma for_loop_Nil [simp]: "for_loop [] body = Inr"
  by (rule ext) simp

lemma for_loop_single [simp]: "for_loop [n] body = body n"
  by (rule ext) simp

lemma for_loop_append:
  "for_loop (xs @ ys) body s = ebind (for_loop xs body s) (for_loop ys body)"
proof (induction xs arbitrary: s)
  case Nil
  show ?case by simp
next
  case (Cons x xs)
  show ?case
    by (cases "body x s") (simp_all add: Cons.IH)
qed

lemma for_loop_collect:
  assumes "\<And>n acc. n \<in> set ns \<Longrightarrow> body n acc = Inr (acc @ [g n])"
  shows "for_loop ns body acc = Inr (acc @ map g ns)"
  using assms
proof (induction ns arbitrary: acc)
  case Nil
  show ?case by simp
next
  case (Cons n ns)
  have "body n acc = Inr (acc @ [g n])"
    by (rule Cons.prems) simp
  moreover have "for_loop ns body (acc @ [g n]) = Inr ((acc @ [g n]) @ map g ns)"
    by (rule Cons.IH) (simp add: Cons.prems)
  ultimately show ?case by simp
qed

lemma for_loop_error:
  "for_loop ns body s = Inl e \<Longrightarrow> \<exists>n \<in> set ns. \<exists>s'. body n s' = Inl e"
proof (induction ns arbitrary: s)
  case Nil
  then show ?case by simp
next
  case (Cons n ns)
  show ?case
  proof (cases "body n s")
    case (Inl e')
    with Cons.prems have "body n s = Inl e" by simp
    then show ?thesis by auto
  next
    case (Inr s')
    with Cons.prems have "for_loop ns body s' = Inl e" by simp
    from Cons.IH [OF this] show ?thesis by auto
  qed
qed

section \<open>Reading one point\<close>

lemma fill_point_ok:
  assumes "ndim \<le> length pt" and "\<And>d. d < ndim \<Longrightarrow> d * stride + n < length cs"
  shows "fill_point ndim cs stride n pt = Inr (blocked_point ndim cs stride n @ drop ndim pt)"
  using assms
proof (induction ndim)
  case 0
  show ?case by (simp add: fill_point_def blocked_point_def)
next
  case (Suc ndim)
  have prev: "fill_point ndim cs stride n pt = Inr (blocked_point ndim cs stride n @ drop ndim pt)"
    by (rule Suc.IH) (use Suc.prems in auto)
  have len: "length (blocked_point ndim cs stride n) = ndim"
    by (simp add: blocked_point_def)
  have rd: "read_at cs (ndim * stride + n) = Inr (cs ! (ndim * stride + n))"
    using Suc.prems(2) [of ndim] by (simp add: read_at_def)
  have dr: "drop ndim pt = pt ! ndim # drop (Suc ndim) pt"
    using Suc.prems(1) by (simp add: Cons_nth_drop_Suc)
  have st: "store (blocked_point ndim cs stride n @ drop ndim pt) ndim v
              = Inr (blocked_point ndim cs stride n @ v # drop (Suc ndim) pt)" for v
    using Suc.prems(1) len by (simp add: store_def dr list_update_append)
  have "fill_point (Suc ndim) cs stride n pt
          = ebind (fill_point ndim cs stride n pt)
              (\<lambda>p. ebind (read_at cs (ndim * stride + n)) (\<lambda>c. store p ndim c))"
    by (simp add: fill_point_def for_loop_append)
  also have "\<dots> = Inr (blocked_point ndim cs stride n @ cs ! (ndim * stride + n) # drop (Suc ndim) pt)"
    by (simp add: prev rd st)
  finally show ?case by (simp add: blocked_point_def)
qed

lemma fill_point_error: "fill_point ndim cs stride n pt = Inl e \<Longrightarrow> e = OutOfRange"
  unfolding fill_point_def
  by (drule for_loop_error) (auto simp: ebind_eq_Inl read_at_def store_def split: if_splits)

lemma zero_pad_error: "zero_pad ndim pt = Inl e \<Longrightarrow> e = OutOfRange"
  unfolding zero_pad_def
  by (drule for_loop_error) (auto simp: store_def split: if_splits)

lemma zero_pad_ok:
  assumes "length pt = 3" and "ndim \<le> 3"
  shows "zero_pad ndim pt = Inr (take ndim pt @ replicate (3 - ndim) 0)"
proof -
  obtain a b c where pt: "pt = [a, b, c]"
    using assms(1) by (auto simp: length_Suc_conv numeral_3_eq_3)
  from assms(2) consider "ndim = 0" | "ndim = 1" | "ndim = 2" | "ndim = 3" by arith
  then show ?thesis
    by cases (simp_all add: zero_pad_def pt upt_rec store_def numeral_3_eq_3 numeral_2_eq_2)
qed

lemma point3_ok:
  assumes "ndim \<le> 3" and "\<And>d. d < ndim \<Longrightarrow> d * stride + n < length cs"
  shows "point3 ndim cs stride n = Inr (padded_point ndim cs stride n)"
proof -
  have "fill_point ndim cs stride n (replicate 3 0)
          = Inr (blocked_point ndim cs stride n @ drop ndim (replicate 3 0))"
    by (rule fill_point_ok) (use assms in auto)
  moreover have "zero_pad ndim (blocked_point ndim cs stride n @ drop ndim (replicate 3 0))
          = Inr (take ndim (blocked_point ndim cs stride n @ drop ndim (replicate 3 0))
                 @ replicate (3 - ndim) 0)"
    by (rule zero_pad_ok) (use assms(1) in \<open>auto simp: blocked_point_def\<close>)
  ultimately show ?thesis
    by (simp add: point3_def padded_point_def blocked_point_def)
qed

lemma point3_error: "point3 ndim cs stride n = Inl e \<Longrightarrow> e = OutOfRange"
  by (auto simp: point3_def ebind_eq_Inl dest: fill_point_error zero_pad_error)

text \<open>With \<open>num_points = size div ndim\<close> every read of the blocked array is in range.\<close>

lemma blocked_index_in_range:
  fixes ndim :: nat
  assumes "d < ndim" and "n < len div ndim"
  shows "d * (len div ndim) + n < len"
proof -
  have "d * (len div ndim) + n < d * (len div ndim) + len div ndim"
    using assms(2) by simp
  also have "\<dots> = Suc d * (len div ndim)" by simp
  also have "\<dots> \<le> ndim * (len div ndim)"
    using assms(1) by (intro mult_le_mono1) simp
  also have "\<dots> \<le> len" by simp
  finally show ?thesis .
qed

section \<open>The queries on a built facade\<close>

lemma getRendezvousProcs_built:
  assumes nd: "0 < d_node_dim r" "d_node_dim r \<le> 3" and rcb: "d_rcb r = Some rcb"
  shows "getRendezvousProcs r cs =
           Inr (map (\<lambda>n. getDestinationProc rcb
                            (padded_point (d_node_dim r) cs (length cs div d_node_dim r) n))
                    [0..<length cs div d_node_dim r])"
proof -
  let ?N = "length cs div d_node_dim r"
  let ?g = "\<lambda>n. getDestinationProc rcb (padded_point (d_node_dim r) cs ?N n)"
  have body: "ebind (point3 (d_node_dim r) cs ?N n) (\<lambda>point.
                ebind (deref (d_rcb r)) (\<lambda>rcb. Inr (acc @ [getDestinationProc rcb point])))
              = Inr (acc @ [?g n])" if "n \<in> set [0..<?N]" for n acc
  proof -
    have "point3 (d_node_dim r) cs ?N n = Inr (padded_point (d_node_dim r) cs ?N n)"
      using that nd(2) by (intro point3_ok blocked_index_in_range) simp_all
    then show ?thesis by (simp add: rcb deref_def)
  qed
  have "for_loop [0..<?N]
          (\<lambda>n acc. ebind (point3 (d_node_dim r) cs ?N n) (\<lambda>point.
                ebind (deref (d_rcb r)) (\<lambda>rcb. Inr (acc @ [getDestinationProc rcb point])))) []
        = Inr ([] @ map ?g [0..<?N])"
    by (rule for_loop_collect) (rule body)
  then show ?thesis
    using nd(1) by (simp add: getRendezvousProcs_def Let_def testPostcondition_def)
qed

lemma getElements_built:
  assumes nd: "0 < d_node_dim r" and kd: "d_kdtree r = Some kd"
  shows "getElements r cs =
           Inr (map (\<lambda>n. findPoint kd
                            (blocked_point (d_node_dim r) cs (length cs div d_node_dim r) n))
                    [0..<length cs div d_node_dim r])"
proof -
  let ?N = "length cs div d_node_dim r"
  let ?g = "\<lambda>n. findPoint kd (blocked_point (d_node_dim r) cs ?N n)"
  have body: "ebind (fill_point (d_node_dim r) cs ?N n (replicate (d_node_dim r) 0)) (\<lambda>point.
                ebind (deref (d_kdtree r)) (\<lambda>kdtree. Inr (acc @ [findPoint kdtree point])))
              = Inr (acc @ [?g n])" if "n \<in> set [0..<?N]" for n acc
  proof -
    have "fill_point (d_node_dim r) cs ?N n (replicate (d_node_dim r) 0)
            = Inr (blocked_point (d_node_dim r) cs ?N n
                   @ drop (d_node_dim r) (replicate (d_node_dim r) 0))"
      using that by (intro fill_point_ok blocked_index_in_range) simp_all
    then show ?thesis by (simp add: kd deref_def)
  qed
  have "for_loop [0..<?N]
          (\<lambda>n acc. ebind (fill_point (d_node_dim r) cs ?N n (replicate (d_node_dim r) 0))
             (\<lambda>point. ebind (deref (d_kdtree r))
                (\<lambda>kdtree. Inr (acc @ [findPoint kdtree point])))) []
        = Inr ([] @ map ?g [0..<?N])"
    by (rule for_loop_collect) (rule body)
  then show ?thesis
    using nd by (simp add: getElements_def Let_def testPostcondition_def)
qed

lemma getRendezvousProcs_error:
  assumes "getRendezvousProcs r cs = Inl e" and "d_node_dim r \<noteq> 0"
  shows "e \<in> {OutOfRange, NullReference, PostconditionFailed}"
proof -
  let ?N = "length cs div d_node_dim r"
  let ?body = "\<lambda>n acc. ebind (point3 (d_node_dim r) cs ?N n) (\<lambda>point.
                ebind (deref (d_rcb r)) (\<lambda>rcb. Inr (acc @ [getDestinationProc rcb point])))"
  from assms have "for_loop [0..<?N] ?body [] = Inl e \<or> e = PostconditionFailed"
    by (auto simp: getRendezvousProcs_def Let_def ebind_eq_Inl testPostcondition_def
             split: if_splits)
  then show ?thesis
  proof
    assume "for_loop [0..<?N] ?body [] = Inl e"
    then obtain n s' where "?body n s' = Inl e"
      by (blast dest: for_loop_error)
    then show ?thesis
      by (auto simp: ebind_eq_Inl deref_def dest: point3_error split: option.splits)
  qed simp
qed

lemma getElements_error:
  assumes "getElements r cs = Inl e" and "d_node_dim r \<noteq> 0"
  shows "e \<in> {OutOfRange, NullReference, PostconditionFailed}"
proof -
  let ?N = "length cs div d_node_dim r"
  let ?body = "\<lambda>n acc. ebind (fill_point (d_node_dim r) cs ?N n (replicate (d_node_dim r) 0))
             (\<lambda>point. ebind (deref (d_kdtree r))
                (\<lambda>kdtree. Inr (acc @ [findPoint kdtree point])))"
  from assms have "for_loop [0..<?N] ?body [] = Inl e \<or> e = PostconditionFailed"
    by (auto simp: getElements_def Let_def ebind_eq_Inl testPostcondition_def
             split: if_splits)
  then show ?thesis
  proof
    assume "for_loop [0..<?N] ?body [] = Inl e"
    then obtain n s' where "?body n s' = Inl e"
      by (blast dest: for_loop_error)
    then show ?thesis
      by (auto simp: ebind_eq_Inl deref_def dest: fill_point_error split: option.splits)
  qed simp
qed

section \<open>Loops, index maps and connectivity\<close>

subsection \<open>Loops in general\<close>

lemma for_loop_total:
  assumes "Inv s0"
    and "\<And>x s. x \<in> set xs \<Longrightarrow> Inv s \<Longrightarrow> \<exists>s'. body x s = Inr s' \<and> Inv s'"
  shows "\<exists>s. for_loop xs body s0 = Inr s \<and> Inv s"
  using assms
proof (induction xs arbitrary: s0)
  case Nil
  then show ?case by simp
next
  case (Cons x xs)
  from Cons.prems obtain s1 where s1: "body x s0 = Inr s1" "Inv s1"
    by (meson list.set_intros(1))
  have "\<exists>s. for_loop xs body s1 = Inr s \<and> Inv s"
    by (rule Cons.IH [OF s1(2)]) (simp add: Cons.prems(2))
  with s1(1) show ?case by simp
qed

lemma for_loop_each:
  assumes "for_loop xs body s0 = Inr s" and "x \<in> set xs"
  shows "\<exists>s1 s2. body x s1 = Inr s2"
  using assms
proof (induction xs arbitrary: s0)
  case Nil
  then show ?case by simp
next
  case (Cons y ys)
  from Cons.prems(1) obtain s1 where s1: "body y s0 = Inr s1" "for_loop ys body s1 = Inr s"
    by (auto simp: ebind_eq_Inr)
  show ?case
  proof (cases "x = y")
    case True
    with s1(1) show ?thesis by blast
  next
    case False
    with Cons.prems(2) have "x \<in> set ys" by simp
    from Cons.IH [OF s1(2) this] show ?thesis .
  qed
qed

subsection \<open>The index maps\<close>

lemma index_map_notin: "g \<notin> set gs \<Longrightarrow> index_map gs m indices g = indices g"
  by (induction gs arbitrary: m indices) auto

lemma index_map_in:
  "g \<in> set gs \<Longrightarrow> \<exists>j<length gs. index_map gs m indices g = Some (m + j) \<and> gs ! j = g"
proof (induction gs arbitrary: m indices)
  case Nil
  then show ?case by simp
next
  case (Cons a gs)
  show ?case
  proof (cases "g \<in> set gs")
    case True
    from Cons.IH [OF this, of "Suc m" "indices(a \<mapsto> m)"] obtain j where
      "j < length gs" "index_map gs (Suc m) (indices(a \<mapsto> m)) g = Some (Suc m + j)" "gs ! j = g"
      by blast
    then show ?thesis by (intro exI [of _ "Suc j"]) simp
  next
    case False
    with Cons.prems have "a = g" by simp
    with False show ?thesis by (intro exI [of _ 0]) (simp add: index_map_notin)
  qed
qed

lemma index_map_Some:
  assumes "index_map gs 0 Map.empty g = Some j"
  shows "j < length gs \<and> gs ! j = g"
proof (cases "g \<in> set gs")
  case True
  from index_map_in [OF this, of 0 Map.empty] assms show ?thesis by auto
next
  case False
  with assms show ?thesis by (simp add: index_map_notin)
qed

lemma index_map_distinct:
  assumes "distinct gs" and "j < length gs"
  shows "index_map gs 0 Map.empty (gs ! j) = Some j"
proof -
  have "gs ! j \<in> set gs" using assms(2) by simp
  from index_map_in [OF this, of 0 Map.empty] obtain k where
    k: "k < length gs" "index_map gs 0 Map.empty (gs ! j) = Some k" "gs ! k = gs ! j"
    by auto
  from k(1,3) assms have "k = j" by (simp add: nth_eq_iff_index_eq)
  with k(2) show ?thesis by simp
qed

lemma find_index_Inr:
  "find_index (index_map gs 0 Map.empty) g = Inr j \<Longrightarrow> j < length gs \<and> gs ! j = g"
  by (auto simp: find_index_def split: option.splits dest: index_map_Some)

lemma find_index_distinct:
  "distinct gs \<Longrightarrow> j < length gs \<Longrightarrow> find_index (index_map gs 0 Map.empty) (gs ! j) = Inr j"
  by (simp add: find_index_def index_map_distinct)

subsection \<open>The position of a node of an element\<close>

lemma node_index_of_Inr:
  assumes "node_index_of mesh i n = Inr j"
  shows "j < length (mesh_nodes mesh) \<and> mesh_nodes mesh ! j = element_node mesh n i \<and>
         i * length (mesh_elements mesh) + n < length (mesh_connectivity mesh)"
  using assms
  by (auto simp: node_index_of_def node_indices_def element_node_def ebind_eq_Inr read_at_def
           split: if_splits dest: find_index_Inr)

lemma slot_index_in_range:
  fixes E :: nat
  assumes "i < k" and "n < E"
  shows "i * E + n < k * E"
proof -
  have "i * E + n < Suc i * E" using assms(2) by simp
  also have "\<dots> \<le> k * E" using assms(1) by (intro mult_le_mono1) simp
  finally show ?thesis .
qed

lemma mesh_ok_connectivity: "mesh_ok ndim mesh \<Longrightarrow> connectivity_ok mesh"
  by (simp add: mesh_ok_def)

lemma node_index_of_ok:
  assumes "connectivity_ok mesh" and "i < nodesPerElement mesh" and "n < length (mesh_elements mesh)"
  shows "\<exists>j<length (mesh_nodes mesh). node_index_of mesh i n = Inr j \<and>
           mesh_nodes mesh ! j = element_node mesh n i"
proof -
  let ?k = "i * length (mesh_elements mesh) + n"
  have k: "?k < nodesPerElement mesh * length (mesh_elements mesh)"
    using assms(2,3) by (rule slot_index_in_range)
  with assms(1) have len: "?k < length (mesh_connectivity mesh)"
    by (simp add: connectivity_ok_def)
  from k assms(1) have "mesh_connectivity mesh ! ?k \<in> set (mesh_nodes mesh)"
    by (simp add: connectivity_ok_def)
  then obtain j where j: "j < length (mesh_nodes mesh)" "mesh_nodes mesh ! j = mesh_connectivity mesh ! ?k"
    by (auto simp: in_set_conv_nth)
  from assms(1) have "distinct (mesh_nodes mesh)"
    by (simp add: connectivity_ok_def)
  from find_index_distinct [OF this j(1)] j(2) len
  have "node_index_of mesh i n = Inr j"
    by (simp add: node_index_of_def node_indices_def read_at_def)
  with j show ?thesis by (auto simp: element_node_def)
qed

lemma node_index_of_unique:
  assumes "connectivity_ok mesh" and "j < length (mesh_nodes mesh)" and "i < nodesPerElement mesh"
    and "n < length (mesh_elements mesh)"
  shows "node_index_of mesh i n = Inr j \<longleftrightarrow> mesh_nodes mesh ! j = element_node mesh n i"
proof
  assume "node_index_of mesh i n = Inr j"
  then show "mesh_nodes mesh ! j = element_node mesh n i"
    by (simp add: node_index_of_Inr)
next
  assume eq: "mesh_nodes mesh ! j = element_node mesh n i"
  from node_index_of_ok [OF assms(1,3,4)] obtain k where
    k: "k < length (mesh_nodes mesh)" "node_index_of mesh i n = Inr k"
       "mesh_nodes mesh ! k = element_node mesh n i" by blast
  from assms(1) have "distinct (mesh_nodes mesh)" by (simp add: connectivity_ok_def)
  with k(1,3) eq assms(2) have "k = j" by (metis nth_eq_iff_index_eq)
  with k(2) show "node_index_of mesh i n = Inr j" by simp
qed

section \<open>The three loops of the filter\<close>

lemma bex_upt: "(\<exists>x \<in> set [0..<n]. P x) \<longleftrightarrow> (\<exists>x<n. P x)"
  by auto

lemma node_point_ok:
  assumes "mesh_ok ndim mesh" and "j < length (mesh_nodes mesh)"
  shows "point3 ndim (mesh_coords mesh) (length (mesh_nodes mesh)) j = Inr (node_point ndim mesh j)"
  unfolding node_point_def
proof (rule point3_ok)
  show "ndim \<le> 3" using assms(1) by (simp add: mesh_ok_def)
  fix d assume "d < ndim"
  then have "d * length (mesh_nodes mesh) + j < ndim * length (mesh_nodes mesh)"
    using assms(2) by (rule slot_index_in_range)
  also have "\<dots> \<le> length (mesh_coords mesh)"
    using assms(1) by (simp add: mesh_ok_def)
  finally show "d * length (mesh_nodes mesh) + j < length (mesh_coords mesh)" .
qed

lemma nodes_in_box_loop_ok:
  assumes "mesh_ok (d_node_dim r) mesh"
  shows "nodes_in_box_loop r mesh box
           = Inr (map (\<lambda>j. if pointInBox box (node_point (d_node_dim r) mesh j) then 1 else 0)
                    [0..<length (mesh_nodes mesh)])"
proof -
  let ?N = "length (mesh_nodes mesh)"
  let ?g = "\<lambda>j. if pointInBox box (node_point (d_node_dim r) mesh j) then 1 else (0::int)"
  have "for_loop [0..<?N]
          (\<lambda>n nodes_in_box.
             ebind (point3 (d_node_dim r) (mesh_coords mesh) ?N n) (\<lambda>node_coords.
             Inr (nodes_in_box @ [if pointInBox box node_coords then 1 else 0]))) []
        = Inr ([] @ map ?g [0..<?N])"
    by (rule for_loop_collect) (simp add: node_point_ok [OF assms])
  then show ?thesis by (simp add: nodes_in_box_loop_def Let_def)
qed

text \<open>The position of the node in slot \<open>i\<close> of element \<open>n\<close>, when the look-up succeeds.\<close>

lemma this_element_in_box_loop:
  assumes "\<And>i. i \<in> set slots \<Longrightarrow> \<exists>j<length nodes_in_box. node_index_of mesh i n = Inr j"
  shows "for_loop slots
           (\<lambda>i this_element_in_box.
              ebind (node_index_of mesh i n) (\<lambda>node_index.
              ebind (read_at nodes_in_box node_index) (\<lambda>flag.
              Inr (if flag \<noteq> 0 then 1 else this_element_in_box)))) (t0::int)
         = Inr (if \<exists>i \<in> set slots. \<exists>j. node_index_of mesh i n = Inr j \<and> nodes_in_box ! j \<noteq> 0
                then 1 else t0)"
  using assms
proof (induction slots arbitrary: t0)
  case Nil
  show ?case by simp
next
  case (Cons i slots)
  from Cons.prems [of i] obtain j where j: "j < length nodes_in_box" "node_index_of mesh i n = Inr j"
    by auto
  have IH: "for_loop slots
           (\<lambda>i this_element_in_box.
              ebind (node_index_of mesh i n) (\<lambda>node_index.
              ebind (read_at nodes_in_box node_index) (\<lambda>flag.
              Inr (if flag \<noteq> 0 then 1 else this_element_in_box)))) (t1::int)
         = Inr (if \<exists>i \<in> set slots. \<exists>j. node_index_of mesh i n = Inr j \<and> nodes_in_box ! j \<noteq> 0
                then 1 else t1)" for t1
    by (rule Cons.IH) (simp add: Cons.prems)
  have rd: "read_at nodes_in_box j = Inr (nodes_in_box ! j)"
    using j(1) by (simp add: read_at_def)
  show ?case
    by (auto simp: j(2) rd IH)
qed

lemma elements_in_box_loop_ok:
  assumes "mesh_ok ndim mesh" and "length nodes_in_box = length (mesh_nodes mesh)"
  shows "elements_in_box_loop mesh nodes_in_box
           = Inr (map (\<lambda>n. if \<exists>i<nodesPerElement mesh. \<exists>j. node_index_of mesh i n = Inr j \<and>
                                  nodes_in_box ! j \<noteq> 0 then 1 else 0)
                    [0..<length (mesh_elements mesh)])"
proof -
  let ?E = "length (mesh_elements mesh)"
  let ?g = "\<lambda>n. if \<exists>i<nodesPerElement mesh. \<exists>j. node_index_of mesh i n = Inr j \<and>
                    nodes_in_box ! j \<noteq> 0 then 1 else (0::int)"
  have inner: "for_loop [0..<nodesPerElement mesh]
           (\<lambda>i this_element_in_box.
              ebind (node_index_of mesh i n) (\<lambda>node_index.
              ebind (read_at nodes_in_box node_index) (\<lambda>flag.
              Inr (if flag \<noteq> 0 then 1 else this_element_in_box)))) 0 = Inr (?g n)"
    if "n < ?E" for n
  proof -
    have "\<exists>j<length nodes_in_box. node_index_of mesh i n = Inr j"
      if "i \<in> set [0..<nodesPerElement mesh]" for i
      using node_index_of_ok [OF mesh_ok_connectivity [OF assms(1)] _ \<open>n < ?E\<close>, of i] that assms(2) by auto
    from this_element_in_box_loop [of "[0..<nodesPerElement mesh]" nodes_in_box mesh n 0, OF this]
    show ?thesis unfolding bex_upt .
  qed
  have "for_loop [0..<?E]
       (\<lambda>n elements_in_box.
          ebind
            (for_loop [0..<nodesPerElement mesh]
               (\<lambda>i this_element_in_box.
                  ebind (node_index_of mesh i n) (\<lambda>node_index.
                  ebind (read_at nodes_in_box node_index) (\<lambda>flag.
                  Inr (if flag \<noteq> 0 then 1 else this_element_in_box))))
               0)
            (\<lambda>this_element_in_box. Inr (elements_in_box @ [this_element_in_box])))
       [] = Inr ([] @ map ?g [0..<?E])"
    by (rule for_loop_collect) (simp add: inner)
  then show ?thesis by (simp add: elements_in_box_loop_def)
qed

lemma for_loop_marks:
  assumes "length fl0 = L"
    and "\<And>x fl. x \<in> set xs \<Longrightarrow> length fl = L \<Longrightarrow>
           \<exists>fl'. body x fl = Inr fl' \<and> length fl' = L \<and>
                 (\<forall>j<L. fl' ! j = (if M x j then 1 else fl ! j))"
  shows "\<exists>fl'. for_loop xs body fl0 = Inr fl' \<and> length fl' = L \<and>
           (\<forall>j<L. fl' ! j = (if \<exists>x \<in> set xs. M x j then (1::int) else fl0 ! j))"
  using assms
proof (induction xs arbitrary: fl0)
  case Nil
  then show ?case by simp
next
  case (Cons x xs)
  from Cons.prems(2) [of x fl0] Cons.prems(1) obtain fl1 where
    fl1: "body x fl0 = Inr fl1" "length fl1 = L" "\<forall>j<L. fl1 ! j = (if M x j then 1 else fl0 ! j)"
    by auto
  have "\<exists>fl'. for_loop xs body fl1 = Inr fl' \<and> length fl' = L \<and>
           (\<forall>j<L. fl' ! j = (if \<exists>x \<in> set xs. M x j then 1 else fl1 ! j))"
    by (rule Cons.IH [OF fl1(2)]) (simp add: Cons.prems(2))
  then obtain fl' where fl': "for_loop xs body fl1 = Inr fl'" "length fl' = L"
    "\<forall>j<L. fl' ! j = (if \<exists>x \<in> set xs. M x j then 1 else fl1 ! j)" by blast
  have "\<forall>j<L. fl' ! j = (if \<exists>y \<in> set (x # xs). M y j then 1 else fl0 ! j)"
    using fl'(3) fl1(3) by auto
  with fl1(1) fl'(1,2) show ?case by simp
qed

lemma expand_nodes_loop_ok:
  assumes "mesh_ok ndim mesh" and "length nodes_in_box = length (mesh_nodes mesh)"
    and "length elements_in_box = length (mesh_elements mesh)"
  shows "\<exists>fl. expand_nodes_loop mesh elements_in_box nodes_in_box = Inr fl \<and>
           length fl = length (mesh_nodes mesh) \<and>
           (\<forall>j<length (mesh_nodes mesh).
              fl ! j = (if \<exists>n<length (mesh_elements mesh). elements_in_box ! n \<noteq> 0 \<and>
                            (\<exists>i<nodesPerElement mesh. node_index_of mesh i n = Inr j)
                        then 1 else nodes_in_box ! j))"
proof -
  let ?N = "length (mesh_nodes mesh)"
  let ?E = "length (mesh_elements mesh)"
  let ?inner = "\<lambda>n. for_loop [0..<nodesPerElement mesh]
                 (\<lambda>i nodes_in_box.
                    ebind (node_index_of mesh i n) (\<lambda>node_index. store nodes_in_box node_index 1))"
  have inner: "\<exists>fl'. ?inner n fl = Inr fl' \<and> length fl' = ?N \<and>
           (\<forall>j<?N. fl' ! j = (if \<exists>i \<in> set [0..<nodesPerElement mesh]. node_index_of mesh i n = Inr j
                              then 1 else fl ! j))"
    if "n < ?E" "length fl = ?N" for n and fl :: "int list"
  proof (rule for_loop_marks [OF that(2)])
    fix i and fl :: "int list"
    assume i: "i \<in> set [0..<nodesPerElement mesh]" and len: "length fl = ?N"
    from node_index_of_ok [OF mesh_ok_connectivity [OF assms(1)] _ that(1), of i] i obtain j0 where
      j0: "j0 < ?N" "node_index_of mesh i n = Inr j0" by auto
    show "\<exists>fl'. ebind (node_index_of mesh i n) (\<lambda>node_index. store fl node_index 1) = Inr fl' \<and>
            length fl' = ?N \<and>
            (\<forall>j<?N. fl' ! j = (if node_index_of mesh i n = Inr j then 1 else fl ! j))"
      using j0 len by (auto simp: store_def)
  qed
  have "\<exists>fl'. for_loop [0..<?E]
       (\<lambda>n nodes_in_box.
          ebind (read_at elements_in_box n) (\<lambda>in_box.
          if in_box \<noteq> 0 then ?inner n nodes_in_box else Inr nodes_in_box)) nodes_in_box = Inr fl' \<and>
     length fl' = ?N \<and>
     (\<forall>j<?N. fl' ! j = (if \<exists>n \<in> set [0..<?E]. elements_in_box ! n \<noteq> 0 \<and>
                     (\<exists>i \<in> set [0..<nodesPerElement mesh]. node_index_of mesh i n = Inr j)
                 then 1 else nodes_in_box ! j))"
  proof (rule for_loop_marks [OF assms(2)])
    fix n and fl :: "int list"
    assume n: "n \<in> set [0..<?E]" and len: "length fl = ?N"
    then have nE: "n < ?E" by simp
    show "\<exists>fl'. ebind (read_at elements_in_box n) (\<lambda>in_box.
            if in_box \<noteq> 0 then ?inner n fl else Inr fl) = Inr fl' \<and>
          length fl' = ?N \<and>
          (\<forall>j<?N. fl' ! j = (if elements_in_box ! n \<noteq> 0 \<and>
                     (\<exists>i \<in> set [0..<nodesPerElement mesh]. node_index_of mesh i n = Inr j)
                 then 1 else fl ! j))"
    proof (cases "elements_in_box ! n \<noteq> 0")
      case True
      with inner [OF nE len] nE assms(3) show ?thesis
        by (simp add: read_at_def)
    next
      case False
      with nE assms(3) len show ?thesis
        by (simp add: read_at_def)
    qed
  qed
  from this [unfolded bex_upt] show ?thesis
    unfolding expand_nodes_loop_def .
qed

section \<open>The filter as a whole\<close>

lemma element_in_box_iff:
  "element_in_box box ndim mesh n \<longleftrightarrow>
     (\<exists>i<nodesPerElement mesh. \<exists>j<length (mesh_nodes mesh).
         mesh_nodes mesh ! j = element_node mesh n i \<and> pointInBox box (node_point ndim mesh j))"
  by (auto simp: element_in_box_def element_nodes_def node_in_box_def)

lemma in_element_nodes_iff:
  "g \<in> set (element_nodes mesh n) \<longleftrightarrow> (\<exists>i<nodesPerElement mesh. element_node mesh n i = g)"
  by (auto simp: element_nodes_def)

lemma in_box_flag_iff:
  assumes "mesh_ok ndim mesh" and "n < length (mesh_elements mesh)"
  shows "(\<exists>i<nodesPerElement mesh. \<exists>j. node_index_of mesh i n = Inr j \<and>
            map (\<lambda>j. if pointInBox box (node_point ndim mesh j) then 1 else (0::int))
              [0..<length (mesh_nodes mesh)] ! j \<noteq> 0)
         \<longleftrightarrow> element_in_box box ndim mesh n"
    (is "?lhs \<longleftrightarrow> ?rhs")
proof
  assume ?lhs
  then obtain i j where i: "i < nodesPerElement mesh" and j: "node_index_of mesh i n = Inr j"
    and fl: "map (\<lambda>j. if pointInBox box (node_point ndim mesh j) then 1 else (0::int))
              [0..<length (mesh_nodes mesh)] ! j \<noteq> 0" by blast
  from node_index_of_Inr [OF j] have jN: "j < length (mesh_nodes mesh)"
    and eq: "mesh_nodes mesh ! j = element_node mesh n i" by simp_all
  from fl jN have "pointInBox box (node_point ndim mesh j)"
    by (simp split: if_splits)
  with i jN eq show ?rhs
    unfolding element_in_box_iff by blast
next
  assume ?rhs
  then obtain i j where i: "i < nodesPerElement mesh" and jN: "j < length (mesh_nodes mesh)"
    and eq: "mesh_nodes mesh ! j = element_node mesh n i"
    and inb: "pointInBox box (node_point ndim mesh j)"
    unfolding element_in_box_iff by blast
  from node_index_of_unique [OF mesh_ok_connectivity [OF assms(1)] jN i assms(2)] eq
  have "node_index_of mesh i n = Inr j" by simp
  moreover from jN inb
  have "map (\<lambda>j. if pointInBox box (node_point ndim mesh j) then 1 else (0::int))
              [0..<length (mesh_nodes mesh)] ! j \<noteq> 0" by simp
  ultimately show ?lhs using i by blast
qed

lemma getMeshInBox_ok:
  assumes "mesh_ok (d_node_dim r) mesh"
  shows "\<exists>nodes_in_box.
           getMeshInBox r mesh box
             = Inr (nodes_in_box,
                    map (\<lambda>n. if element_in_box box (d_node_dim r) mesh n then 1 else 0)
                      [0..<length (mesh_elements mesh)]) \<and>
           length nodes_in_box = length (mesh_nodes mesh) \<and>
           (\<forall>j<length (mesh_nodes mesh).
              nodes_in_box ! j =
                (if pointInBox box (node_point (d_node_dim r) mesh j) \<or>
                    (\<exists>n<length (mesh_elements mesh). element_in_box box (d_node_dim r) mesh n \<and>
                        mesh_nodes mesh ! j \<in> set (element_nodes mesh n))
                 then 1 else 0))"
proof -
  let ?N = "length (mesh_nodes mesh)"
  let ?E = "length (mesh_elements mesh)"
  let ?nd = "d_node_dim r"
  let ?nib = "map (\<lambda>j. if pointInBox box (node_point ?nd mesh j) then 1 else (0::int)) [0..<?N]"
  let ?eib = "map (\<lambda>n. if element_in_box box ?nd mesh n then 1 else (0::int)) [0..<?E]"
  have p1: "nodes_in_box_loop r mesh box = Inr ?nib"
    by (rule nodes_in_box_loop_ok [OF assms])
  have "elements_in_box_loop mesh ?nib
          = Inr (map (\<lambda>n. if \<exists>i<nodesPerElement mesh. \<exists>j. node_index_of mesh i n = Inr j \<and>
                                  ?nib ! j \<noteq> 0 then 1 else 0) [0..<?E])"
    by (rule elements_in_box_loop_ok [OF assms]) simp
  also have "map (\<lambda>n. if \<exists>i<nodesPerElement mesh. \<exists>j. node_index_of mesh i n = Inr j \<and>
                                  ?nib ! j \<noteq> 0 then 1 else 0) [0..<?E] = ?eib"
    by (rule map_cong [OF refl]) (simp only: in_box_flag_iff [OF assms] set_upt atLeastLessThan_iff)
  finally have p2: "elements_in_box_loop mesh ?nib = Inr ?eib" .
  from expand_nodes_loop_ok [OF assms, of ?nib ?eib] obtain fl where
    p3: "expand_nodes_loop mesh ?eib ?nib = Inr fl" and len: "length fl = ?N"
    and fl: "\<forall>j<?N. fl ! j = (if \<exists>n<?E. ?eib ! n \<noteq> 0 \<and>
                            (\<exists>i<nodesPerElement mesh. node_index_of mesh i n = Inr j)
                        then 1 else ?nib ! j)"
    by auto
  have "fl ! j = (if pointInBox box (node_point ?nd mesh j) \<or>
                    (\<exists>n<?E. element_in_box box ?nd mesh n \<and>
                        mesh_nodes mesh ! j \<in> set (element_nodes mesh n))
                 then 1 else 0)" if j: "j < ?N" for j
  proof -
    define A where "A \<longleftrightarrow> (\<exists>n<?E. ?eib ! n \<noteq> 0 \<and>
                            (\<exists>i<nodesPerElement mesh. node_index_of mesh i n = Inr j))"
    define B where "B \<longleftrightarrow> (\<exists>n<?E. element_in_box box ?nd mesh n \<and>
                        mesh_nodes mesh ! j \<in> set (element_nodes mesh n))"
    define P where "P \<longleftrightarrow> pointInBox box (node_point ?nd mesh j)"
    have a: "?eib ! n \<noteq> 0 \<longleftrightarrow> element_in_box box ?nd mesh n" if "n < ?E" for n
      using that by simp
    have b: "(\<exists>i<nodesPerElement mesh. node_index_of mesh i n = Inr j)
               \<longleftrightarrow> mesh_nodes mesh ! j \<in> set (element_nodes mesh n)" if "n < ?E" for n
      using node_index_of_unique [OF mesh_ok_connectivity [OF assms] j _ that]
      by (auto simp: in_element_nodes_iff)
    have AB: "A \<longleftrightarrow> B"
      unfolding A_def B_def using a b by blast
    have nibj: "?nib ! j = (if P then 1 else 0)"
      unfolding P_def using j by simp
    from fl j have "fl ! j = (if A then 1 else ?nib ! j)"
      unfolding A_def by blast
    then have "fl ! j = (if P \<or> B then 1 else 0)"
      unfolding nibj AB by simp
    then show ?thesis
      unfolding P_def B_def .
  qed
  with p1 p2 p3 len show ?thesis
    by (simp add: getMeshInBox_def assert_that_def)
qed

section \<open>Arrays of sets, unrolling and the exchange\<close>

lemma strict_sorted_insort_insert:
  "sorted_wrt (<) s \<Longrightarrow> sorted_wrt (<) (insort_insert (p::int) s)"
  by (simp add: strict_sorted_iff sorted_insort_insert distinct_insort_insert)

lemma adds_refl: "adds sets sets (\<lambda>k. {})"
  by (simp add: adds_def)

lemma adds_trans:
  assumes "adds s0 s1 A" and "adds s1 s2 B"
  shows "adds s0 s2 (\<lambda>k. A k \<union> B k)"
  using assms by (auto simp: adds_def)

lemma adds_cong: "adds s0 s1 A \<Longrightarrow> (\<And>k. k < length s0 \<Longrightarrow> A k = B k) \<Longrightarrow> adds s0 s1 B"
  by (simp add: adds_def)

lemma insert_at_adds:
  assumes "insert_at sets k p = Inr sets'"
  shows "k < length sets \<and> adds sets sets' (\<lambda>j. if j = k then {p} else {})"
proof -
  from assms have k: "k < length sets" and eq: "sets' = sets[k := insort_insert p (sets ! k)]"
    by (auto simp: insert_at_def split: if_splits)
  have "\<forall>s \<in> set sets'. sorted_wrt (<) s" if "\<forall>s \<in> set sets. sorted_wrt (<) s"
  proof
    fix s assume "s \<in> set sets'"
    then have "s \<in> insert (insort_insert p (sets ! k)) (set sets)"
      unfolding eq using set_update_subset_insert by fastforce
    with that k show "sorted_wrt (<) s"
      by (auto intro: strict_sorted_insort_insert)
  qed
  then show ?thesis
    using k by (auto simp: adds_def eq set_insort_insert nth_list_update)
qed


lemma for_loop_adds:
  assumes "for_loop xs body sets0 = Inr sets'"
    and "\<And>x sets sets1. x \<in> set xs \<Longrightarrow> length sets = length sets0 \<Longrightarrow>
           body x sets = Inr sets1 \<Longrightarrow> adds sets sets1 (A x)"
  shows "adds sets0 sets' (\<lambda>k. \<Union>x \<in> set xs. A x k)"
  using assms
proof (induction xs arbitrary: sets0)
  case Nil
  then show ?case by (simp add: adds_refl)
next
  case (Cons x xs)
  from Cons.prems(1) obtain sets1 where s1: "body x sets0 = Inr sets1"
    "for_loop xs body sets1 = Inr sets'"
    by (auto simp: ebind_eq_Inr)
  have a1: "adds sets0 sets1 (A x)"
    by (rule Cons.prems(2) [OF _ refl s1(1)]) simp
  then have len: "length sets1 = length sets0"
    by (simp add: adds_def)
  have "adds sets1 sets' (\<lambda>k. \<Union>x \<in> set xs. A x k)"
    by (rule Cons.IH [OF s1(2)]) (simp add: Cons.prems(2) len)
  from adds_trans [OF a1 this] show ?case
    by (rule adds_cong) auto
qed


subsection \<open>Unrolling\<close>

lemma for_loop_concat:
  assumes "\<And>x acc. x \<in> set xs \<Longrightarrow> body x acc = Inr (acc @ g x)"
  shows "for_loop xs body acc = Inr (acc @ concat (map g xs))"
  using assms
proof (induction xs arbitrary: acc)
  case Nil
  show ?case by simp
next
  case (Cons x xs)
  have "body x acc = Inr (acc @ g x)"
    by (rule Cons.prems) simp
  moreover have "for_loop xs body (acc @ g x) = Inr ((acc @ g x) @ concat (map g xs))"
    by (rule Cons.IH) (simp add: Cons.prems)
  ultimately show ?case by simp
qed

lemma unroll_ok:
  assumes "\<And>k. k < length sets \<Longrightarrow> sets ! k \<noteq> [] \<Longrightarrow> k < length ordinals"
  shows "unroll ordinals sets
           = Inr (concat (map (\<lambda>k. map (Pair (ordinals ! k)) (sets ! k)) [0..<length sets]))"
proof -
  have "for_loop [0..<length sets]
       (\<lambda>k exports.
          for_loop (sets ! k)
            (\<lambda>p exports.
               ebind (read_at ordinals k) (\<lambda>ordinal. Inr (exports @ [(ordinal, p)])))
            exports) []
     = Inr ([] @ concat (map (\<lambda>k. map (Pair (ordinals ! k)) (sets ! k)) [0..<length sets]))"
  proof (rule for_loop_concat)
    fix k and acc :: "(int \<times> int) list"
    assume k: "k \<in> set [0..<length sets]"
    show "for_loop (sets ! k)
            (\<lambda>p exports.
               ebind (read_at ordinals k) (\<lambda>ordinal. Inr (exports @ [(ordinal, p)]))) acc
          = Inr (acc @ map (Pair (ordinals ! k)) (sets ! k))"
    proof (rule for_loop_collect)
      fix p and acc' :: "(int \<times> int) list"
      assume "p \<in> set (sets ! k)"
      then have "sets ! k \<noteq> []" by auto
      with assms [of k] k have "read_at ordinals k = Inr (ordinals ! k)"
        by (simp add: read_at_def)
      then show "ebind (read_at ordinals k) (\<lambda>ordinal. Inr (acc' @ [(ordinal, p)]))
                   = Inr (acc' @ [(ordinals ! k, p)])"
        by simp
    qed
  qed
  then show ?thesis by (simp add: unroll_def)
qed

lemma unroll_Inr_read:
  assumes "unroll ordinals sets = Inr exports" and "k < length sets" and "sets ! k \<noteq> []"
  shows "k < length ordinals"
proof -
  from assms(2) have "k \<in> set [0..<length sets]" by simp
  from for_loop_each [OF assms(1) [unfolded unroll_def] this] obtain s1 s2 where
    inner: "for_loop (sets ! k)
            (\<lambda>p exports.
               ebind (read_at ordinals k) (\<lambda>ordinal. Inr (exports @ [(ordinal, p)]))) s1
          = Inr s2" by blast
  from assms(3) have "hd (sets ! k) \<in> set (sets ! k)" by simp
  from for_loop_each [OF inner this] show ?thesis
    by (auto simp: ebind_eq_Inr read_at_def split: if_splits)
qed

lemma unroll_Inr:
  assumes "unroll ordinals sets = Inr exports"
  shows "set exports = {(ordinals ! k, p) | k p. k < length sets \<and> p \<in> set (sets ! k)}"
proof -
  from unroll_ok [of sets ordinals, OF unroll_Inr_read [OF assms]] assms
  have "exports = concat (map (\<lambda>k. map (Pair (ordinals ! k)) (sets ! k)) [0..<length sets])"
    by simp
  then show ?thesis
    by auto
qed

subsection \<open>The distributor and the rendezvous arrays\<close>

lemma distributor_Inr:
  assumes "distributor sz exports = Inr imports"
  shows "length imports = sz \<and>
         (\<forall>rank<sz. set (imports ! rank) = {g. \<exists>ex \<in> set exports. (g, int rank) \<in> set ex})"
proof -
  from assms have eq: "imports = map (\<lambda>rank. concat (map (\<lambda>ex. map fst (filter (\<lambda>(g, p). p = int rank) ex)) exports)) [0..<sz]"
    by (simp add: distributor_def split: if_splits)
  show ?thesis
    unfolding eq by (auto simp: image_iff)
qed

lemma fold_insort_insert:
  assumes "sorted_wrt (<) (ys :: int list)"
  shows "sorted_wrt (<) (fold insort_insert xs ys) \<and> set (fold insort_insert xs ys) = set xs \<union> set ys"
  using assms
proof (induction xs arbitrary: ys)
  case Nil
  then show ?case by simp
next
  case (Cons x xs)
  from Cons.IH [OF strict_sorted_insort_insert [OF Cons.prems], of x]
  show ?case by (simp add: set_insort_insert)
qed

lemma rendezvous_array_sorted: "sorted_wrt (<) (rendezvous_array imports)"
  using fold_insort_insert [of "[]" "imports"] by (simp add: rendezvous_array_def)

lemma rendezvous_array_set: "set (rendezvous_array imports) = set imports"
  using fold_insort_insert [of "[]" "imports"] by (simp add: rendezvous_array_def)

lemma mapM_Inr: "mapM f xs = Inr ys \<longleftrightarrow> list_all2 (\<lambda>x y. f x = Inr y) xs ys"
proof (induction xs arbitrary: ys)
  case Nil
  show ?case by auto
next
  case (Cons x xs)
  show ?case
    by (cases ys) (auto simp: ebind_eq_Inr Cons.IH)
qed

lemma distinct_concat_nth:
  assumes "distinct (concat xss)" and "s < length xss" and "t < length xss"
    and "n < length (xss ! s)" and "m < length (xss ! t)" and "xss ! s ! n = xss ! t ! m"
  shows "s = t \<and> n = m"
  using assms
proof (induction xss arbitrary: s t)
  case Nil
  then show ?case by simp
next
  case (Cons xs xss)
  from Cons.prems(1) have d: "distinct xs" "distinct (concat xss)"
    and disj: "set xs \<inter> set (concat xss) = {}" by simp_all
  show ?case
  proof (cases s; cases t)
    fix s' t' assume st: "s = Suc s'" "t = Suc t'"
    with Cons.IH [OF d(2), of s' t'] Cons.prems show ?thesis by simp
  next
    assume st: "s = 0" "t = 0"
    with Cons.prems d(1) show ?thesis by (simp add: nth_eq_iff_index_eq)
  next
    fix t' assume st: "s = 0" "t = Suc t'"
    with Cons.prems have n: "n < length xs" and t': "t' < length xss"
      and m: "m < length (xss ! t')" and eq: "xs ! n = xss ! t' ! m" by simp_all
    from n have a: "xs ! n \<in> set xs" by simp
    from t' m have "xss ! t' ! m \<in> set (concat xss)"
      by (auto intro!: bexI [of _ "xss ! t'"])
    with a eq disj show ?thesis by auto
  next
    fix s' assume st: "s = Suc s'" "t = 0"
    with Cons.prems have m: "m < length xs" and s': "s' < length xss"
      and n: "n < length (xss ! s')" and eq: "xss ! s' ! n = xs ! m" by simp_all
    from m have a: "xs ! m \<in> set xs" by simp
    from s' n have "xss ! s' ! n \<in> set (concat xss)"
      by (auto intro!: bexI [of _ "xss ! s'"])
    with a eq disj show ?thesis by auto
  qed
qed

section \<open>The node destinations\<close>

subsection \<open>Phase 4 from its result\<close>

lemma node_slot_loop_adds:
  assumes "for_loop slots
            (\<lambda>i procs_set.
               ebind (node_index_of mesh i element_index) (\<lambda>node_index.
               insert_at procs_set node_index proc)) sets = Inr sets'"
  shows "adds sets sets'
           (\<lambda>k. {p. p = proc \<and> (\<exists>i \<in> set slots. node_index_of mesh i element_index = Inr k)})"
proof -
  have "adds sets sets'
          (\<lambda>k. \<Union>i \<in> set slots. {p. p = proc \<and> node_index_of mesh i element_index = Inr k})"
  proof (rule for_loop_adds [OF assms])
    fix i s s1
    assume "ebind (node_index_of mesh i element_index) (\<lambda>node_index.
               insert_at s node_index proc) = Inr s1"
    then obtain j where j: "node_index_of mesh i element_index = Inr j"
      and ins: "insert_at s j proc = Inr s1"
      by (auto simp: ebind_eq_Inr)
    from insert_at_adds [OF ins] have "adds s s1 (\<lambda>k. if k = j then {proc} else {})" by simp
    then show "adds s s1 (\<lambda>k. {p. p = proc \<and> node_index_of mesh i element_index = Inr k})"
      by (rule adds_cong) (auto simp: j)
  qed
  then show ?thesis
    by (rule adds_cong) auto
qed

lemma export_node_procs_set_Inr:
  assumes "export_node_procs_set mesh exports = Inr sets"
  shows "length sets = length (mesh_nodes mesh) \<and> (\<forall>s \<in> set sets. sorted_wrt (<) s) \<and>
         (\<forall>j<length (mesh_nodes mesh).
            set (sets ! j) =
              {p. \<exists>e idx. (e, p) \<in> set exports \<and> find_index (element_indices mesh) e = Inr idx \<and>
                     (\<exists>i<nodesPerElement mesh. node_index_of mesh i idx = Inr j)})"
proof -
  let ?N = "length (mesh_nodes mesh)"
  let ?A = "\<lambda>(e, p) k. {p'. p' = p \<and> (\<exists>idx. find_index (element_indices mesh) e = Inr idx \<and>
                (\<exists>i<nodesPerElement mesh. node_index_of mesh i idx = Inr k))}"
  have "adds (replicate ?N []) sets (\<lambda>k. \<Union>x \<in> set exports. ?A x k)"
  proof (rule for_loop_adds [OF assms [unfolded export_node_procs_set_def]])
    fix x :: "int \<times> int" and s s1 :: "int list list"
    obtain e p where x: "x = (e, p)" by (cases x)
    assume "(case x of (element, proc) \<Rightarrow> \<lambda>procs_set.
               ebind (find_index (element_indices mesh) element) (\<lambda>element_index.
               for_loop [0..<nodesPerElement mesh]
                 (\<lambda>i procs_set.
                    ebind (node_index_of mesh i element_index) (\<lambda>node_index.
                    insert_at procs_set node_index proc))
                 procs_set)) s = Inr s1"
    then obtain idx where idx: "find_index (element_indices mesh) e = Inr idx"
      and inner: "for_loop [0..<nodesPerElement mesh]
                 (\<lambda>i procs_set.
                    ebind (node_index_of mesh i idx) (\<lambda>node_index.
                    insert_at procs_set node_index p)) s = Inr s1"
      by (auto simp: x ebind_eq_Inr)
    from node_slot_loop_adds [OF inner]
    show "adds s s1 (?A x)"
      by (rule adds_cong) (auto simp: x idx)
  qed
  then have len: "length sets = ?N" and srt: "\<forall>s \<in> set sets. sorted_wrt (<) s"
    and mem: "\<forall>k<?N. set (sets ! k) = (\<Union>x \<in> set exports. ?A x k)"
    by (simp_all add: adds_def)
  have "set (sets ! j) =
              {p. \<exists>e idx. (e, p) \<in> set exports \<and> find_index (element_indices mesh) e = Inr idx \<and>
                     (\<exists>i<nodesPerElement mesh. node_index_of mesh i idx = Inr j)}"
    if "j < ?N" for j
  proof -
    have "(\<Union>x \<in> set exports. ?A x j) =
              {p. \<exists>e idx. (e, p) \<in> set exports \<and> find_index (element_indices mesh) e = Inr idx \<and>
                     (\<exists>i<nodesPerElement mesh. node_index_of mesh i idx = Inr j)}"
      by force
    with mem that show ?thesis by simp
  qed
  with len srt show ?thesis by blast
qed

lemma export_node_procs_set_found:
  assumes "export_node_procs_set mesh exports = Inr sets" and "(e, p) \<in> set exports"
  shows "\<exists>idx. find_index (element_indices mesh) e = Inr idx \<and>
           (\<forall>i<nodesPerElement mesh. \<exists>j. node_index_of mesh i idx = Inr j)"
proof -
  from for_loop_each [OF assms(1) [unfolded export_node_procs_set_def] assms(2)]
  obtain s1 s2 idx where idx: "find_index (element_indices mesh) e = Inr idx"
    and inner: "for_loop [0..<nodesPerElement mesh]
                 (\<lambda>i procs_set.
                    ebind (node_index_of mesh i idx) (\<lambda>node_index.
                    insert_at procs_set node_index p)) s1 = Inr s2"
    by (auto simp: ebind_eq_Inr)
  have "\<exists>j. node_index_of mesh i idx = Inr j" if "i < nodesPerElement mesh" for i
  proof -
    from that have "i \<in> set [0..<nodesPerElement mesh]" by simp
    from for_loop_each [OF inner this] show ?thesis
      by (auto simp: ebind_eq_Inr)
  qed
  with idx show ?thesis by blast
qed

text \<open>Every node of an exported element is exported to the same rank.\<close>

lemma export_nodes_cover:
  assumes "export_nodes_of mesh exports = Inr node_exports" and "(e, p) \<in> set exports"
  shows "\<exists>idx<length (mesh_elements mesh). mesh_elements mesh ! idx = e \<and>
           (\<forall>g \<in> set (element_nodes mesh idx). (g, p) \<in> set node_exports)"
proof -
  from assms(1) obtain sets where sets: "export_node_procs_set mesh exports = Inr sets"
    and un: "unroll (mesh_nodes mesh) sets = Inr node_exports"
    by (auto simp: export_nodes_of_def ebind_eq_Inr)
  from export_node_procs_set_found [OF sets assms(2)] obtain idx where
    idx: "find_index (element_indices mesh) e = Inr idx"
    and slots: "\<forall>i<nodesPerElement mesh. \<exists>j. node_index_of mesh i idx = Inr j" by blast
  from idx have idx': "idx < length (mesh_elements mesh)" "mesh_elements mesh ! idx = e"
    by (auto simp: element_indices_def dest: find_index_Inr)
  from export_node_procs_set_Inr [OF sets] have len: "length sets = length (mesh_nodes mesh)"
    and mem: "\<forall>j<length (mesh_nodes mesh).
            set (sets ! j) =
              {p. \<exists>e idx. (e, p) \<in> set exports \<and> find_index (element_indices mesh) e = Inr idx \<and>
                     (\<exists>i<nodesPerElement mesh. node_index_of mesh i idx = Inr j)}"
    by simp_all
  from unroll_Inr [OF un]
  have ex: "set node_exports = {(mesh_nodes mesh ! k, p) | k p. k < length sets \<and> p \<in> set (sets ! k)}"
    by simp
  have "(g, p) \<in> set node_exports" if "g \<in> set (element_nodes mesh idx)" for g
  proof -
    from that obtain i where i: "i < nodesPerElement mesh" "element_node mesh idx i = g"
      by (auto simp: element_nodes_def)
    from slots i(1) obtain j where j: "node_index_of mesh i idx = Inr j" by blast
    from node_index_of_Inr [OF j] i(2) have jN: "j < length (mesh_nodes mesh)"
      and g: "mesh_nodes mesh ! j = g" by simp_all
    from mem jN assms(2) idx i(1) j have "p \<in> set (sets ! j)" by blast
    with jN g len show ?thesis unfolding ex by auto
  qed
  with idx' show ?thesis by blast
qed

lemma export_elements_are_elements:
  assumes "export_elements_of r mesh elements_in_box = Inr exports" and "(e, p) \<in> set exports"
  shows "e \<in> set (mesh_elements mesh)"
proof -
  from assms(1) obtain sets where un: "unroll (mesh_elements mesh) sets = Inr exports"
    by (auto simp: export_elements_of_def ebind_eq_Inr)
  from unroll_Inr [OF un] assms(2) obtain k where k: "k < length sets" "e = mesh_elements mesh ! k"
    "p \<in> set (sets ! k)" by auto
  then have "sets ! k \<noteq> []" by auto
  from unroll_Inr_read [OF un k(1) this] k(2) show ?thesis by simp
qed

section \<open>The collective as a whole\<close>

lemma setupImportCommunication_Inr:
  assumes "setupImportCommunication ranks = Inr outs"
  obtains export_elements import_elements export_nodes import_nodes where
    "list_all2 (\<lambda>x y. (case x of (r, mesh, elements_in_box) \<Rightarrow>
                         export_elements_of r mesh elements_in_box) = Inr y)
       ranks export_elements"
    "distributor (length ranks) export_elements = Inr import_elements"
    "list_all2 (\<lambda>x y. (case x of ((r, mesh, elements_in_box), exports) \<Rightarrow>
                         export_nodes_of mesh exports) = Inr y)
       (zip ranks export_elements) export_nodes"
    "distributor (length ranks) export_nodes = Inr import_nodes"
    "outs = map (\<lambda>(nodes, elements). (rendezvous_array nodes, rendezvous_array elements))
              (zip import_nodes import_elements)"
proof -
  from assms obtain export_elements import_elements export_nodes import_nodes where
    "mapM (\<lambda>(r, mesh, elements_in_box). export_elements_of r mesh elements_in_box) ranks
       = Inr export_elements"
    "distributor (length ranks) export_elements = Inr import_elements"
    "mapM (\<lambda>((r, mesh, elements_in_box), exports). export_nodes_of mesh exports)
       (zip ranks export_elements) = Inr export_nodes"
    "distributor (length ranks) export_nodes = Inr import_nodes"
    "outs = map (\<lambda>(nodes, elements). (rendezvous_array nodes, rendezvous_array elements))
              (zip import_nodes import_elements)"
    by (auto simp: setupImportCommunication_def ebind_eq_Inr)
  then show thesis
    by (intro that [of export_elements import_elements export_nodes import_nodes])
       (simp_all add: mapM_Inr split_def)
qed

lemma setupImportCommunication_arrays:
  assumes "setupImportCommunication ranks = Inr outs"
  shows "length outs = length ranks \<and>
         (\<forall>rank<length ranks. \<exists>nodes elements.
             outs ! rank = (rendezvous_array nodes, rendezvous_array elements))"
proof -
  from assms obtain export_elements import_elements export_nodes import_nodes where
    de: "distributor (length ranks) export_elements = Inr import_elements"
    and dn: "distributor (length ranks) export_nodes = Inr import_nodes"
    and outs: "outs = map (\<lambda>(nodes, elements). (rendezvous_array nodes, rendezvous_array elements))
              (zip import_nodes import_elements)"
    by (rule setupImportCommunication_Inr)
  from distributor_Inr [OF de] distributor_Inr [OF dn]
  have len: "length import_elements = length ranks" "length import_nodes = length ranks"
    by simp_all
  then show ?thesis
    unfolding outs by fastforce
qed

subsection \<open>Phase 4 on a well-formed mesh\<close>

lemma find_element_index:
  assumes "connectivity_ok mesh" and "n < length (mesh_elements mesh)"
  shows "find_index (element_indices mesh) (mesh_elements mesh ! n) = Inr n"
  using assms by (simp add: element_indices_def find_index_distinct connectivity_ok_def)

lemma export_node_procs_set_total:
  assumes "connectivity_ok mesh" and "\<forall>(e, p) \<in> set exports. e \<in> set (mesh_elements mesh)"
  shows "\<exists>sets. export_node_procs_set mesh exports = Inr sets"
proof -
  let ?N = "length (mesh_nodes mesh)"
  have "\<exists>s. for_loop exports
       (\<lambda>(element, proc) procs_set.
          ebind (find_index (element_indices mesh) element) (\<lambda>element_index.
          for_loop [0..<nodesPerElement mesh]
            (\<lambda>i procs_set.
               ebind (node_index_of mesh i element_index) (\<lambda>node_index.
               insert_at procs_set node_index proc))
            procs_set))
       (replicate ?N []) = Inr s \<and> length s = ?N"
  proof (rule for_loop_total [where Inv = "\<lambda>s. length s = ?N"])
    show "length (replicate ?N ([] :: int list)) = ?N" by simp
    fix x :: "int \<times> int" and s :: "int list list"
    assume x: "x \<in> set exports" and len: "length s = ?N"
    obtain e p where xe: "x = (e, p)" by (cases x)
    with x assms(2) have "e \<in> set (mesh_elements mesh)" by auto
    then obtain n where n: "n < length (mesh_elements mesh)" "mesh_elements mesh ! n = e"
      by (auto simp: in_set_conv_nth)
    with find_element_index [OF assms(1) n(1)]
    have idx: "find_index (element_indices mesh) e = Inr n" by simp
    have "\<exists>s'. for_loop [0..<nodesPerElement mesh]
            (\<lambda>i procs_set.
               ebind (node_index_of mesh i n) (\<lambda>node_index.
               insert_at procs_set node_index p)) s = Inr s' \<and> length s' = ?N"
    proof (rule for_loop_total [where Inv = "\<lambda>s. length s = ?N"])
      show "length s = ?N" by (rule len)
      fix i and t :: "int list list"
      assume "i \<in> set [0..<nodesPerElement mesh]" and t: "length t = ?N"
      then have "i < nodesPerElement mesh" by simp
      from node_index_of_ok [OF assms(1) this n(1)] obtain j where
        j: "j < ?N" "node_index_of mesh i n = Inr j" by blast
      then show "\<exists>s'. ebind (node_index_of mesh i n) (\<lambda>node_index.
               insert_at t node_index p) = Inr s' \<and> length s' = ?N"
        using t by (simp add: insert_at_def)
    qed
    then show "\<exists>s'. (case x of (element, proc) \<Rightarrow> \<lambda>procs_set.
          ebind (find_index (element_indices mesh) element) (\<lambda>element_index.
          for_loop [0..<nodesPerElement mesh]
            (\<lambda>i procs_set.
               ebind (node_index_of mesh i element_index) (\<lambda>node_index.
               insert_at procs_set node_index proc))
            procs_set)) s = Inr s' \<and> length s' = ?N"
      by (simp add: xe idx)
  qed
  then show ?thesis
    unfolding export_node_procs_set_def by blast
qed

subsection \<open>Phase 2 on a well-formed mesh\<close>


section \<open>The example meshes\<close>

lemma ex_mesh1_ok: "mesh_ok (d_node_dim ex_facade1) ex_mesh1"
  by (simp add: mesh_ok_def connectivity_ok_def ex_facade1_def ex_mesh1_def less_Suc_eq numeral_2_eq_2 numeral_3_eq_3 all_conj_distrib)

lemma ex_mesh1_in_box: "getMeshInBox ex_facade1 ex_mesh1 ex_box = Inr ([1, 1, 0], [1, 0])"
  by code_simp

lemma ex_setup: "setupImportCommunication ex_ranks = Inr ex_outs"
  by code_simp

lemma ex_ranks_distinct:
  "distinct (concat (map (\<lambda>(r, mesh, elements_in_box). mesh_elements mesh) ex_ranks))"
  by (simp add: ex_ranks_def ex_mesh0_def ex_mesh1_def)

lemma ex_mesh0_ok: "mesh_ok (d_node_dim ex_facade1) ex_mesh0"
  by (simp add: mesh_ok_def connectivity_ok_def ex_facade1_def ex_mesh0_def less_Suc_eq numeral_2_eq_2 numeral_3_eq_3 all_conj_distrib)

lemma ex_mesh0_node_sets:
  "export_node_procs_set ex_mesh0 ex_exports0 = Inr [[0], [0, 1], [0, 1]]"
  by code_simp



lemma ex_mesh0_connectivity: "connectivity_ok ex_mesh0"
  using ex_mesh0_ok by (rule mesh_ok_connectivity)

section \<open>Claims about the queries\<close>



subsection \<open>Element location\<close>

lemma fold_min_in: "fold min es (e::int) \<in> insert e (set es)"
  by (induction es arbitrary: e) (auto simp: min_def)

lemma findPoint_hit:
  assumes "\<exists>e \<in> set (kd_elements t). kd_pointInCell t e p"
  shows "findPoint t p \<in> set (kd_elements t) \<and> kd_pointInCell t (findPoint t p) p"
proof -
  let ?hits = "filter (\<lambda>e. kd_pointInCell t e p) (kd_elements t)"
  from assms have "?hits \<noteq> []"
    by (simp add: filter_empty_conv)
  then obtain e es where hits: "?hits = e # es"
    by (cases ?hits) auto
  have "findPoint t p = fold min es e"
    by (simp add: findPoint_def hits)
  moreover have "fold min es e \<in> set ?hits"
    using fold_min_in [of es e] by (simp add: hits)
  ultimately show ?thesis by simp
qed

lemma findPoint_miss:
  assumes "\<not> (\<exists>e \<in> set (kd_elements t). kd_pointInCell t e p)"
  shows "findPoint t p = kd_sentinel t"
proof -
  from assms have "filter (\<lambda>e. kd_pointInCell t e p) (kd_elements t) = []"
    by (simp add: filter_empty_conv)
  then show ?thesis by (simp add: findPoint_def)
qed

text \<open>
  Claim C7. On a facade whose node dimension \<open>d\<close> is 1, 2 or 3 and whose kD-tree exists,
  \<^verbatim>\<open>getElements\<close> applied to a blocked coordinate array of length \<open>d * N\<close> returns
  normally (no error value) an array of exactly \<open>N\<close> entries; entry \<open>n\<close> is the kD-tree's
  \<^verbatim>\<open>findPoint\<close> of point \<open>n\<close>: an element of the tree that contains the point when there
  is one, the sentinel when no element contains it.
\<close>

theorem getElements_finds:
  assumes "d_node_dim r \<in> {1, 2, 3}" and "d_kdtree r = Some kd"
    and "length cs = d_node_dim r * N"
  shows "\<exists>ids. getElements r cs = Inr ids \<and> length ids = N \<and>
           (\<forall>n<N. ids ! n = findPoint kd (blocked_point (d_node_dim r) cs N n) \<and>
              (if \<exists>e \<in> set (kd_elements kd).
                     kd_pointInCell kd e (blocked_point (d_node_dim r) cs N n)
               then ids ! n \<in> set (kd_elements kd) \<and>
                    kd_pointInCell kd (ids ! n) (blocked_point (d_node_dim r) cs N n)
               else ids ! n = kd_sentinel kd))"
proof -
  have nd: "0 < d_node_dim r"
    using assms(1) by auto
  have N: "length cs div d_node_dim r = N"
    using assms(3) nd by simp
  have "getElements r cs
          = Inr (map (\<lambda>n. findPoint kd (blocked_point (d_node_dim r) cs N n)) [0..<N])"
    using getElements_built [OF nd assms(2), of cs] by (simp add: N)
  then show ?thesis
    using findPoint_hit [of kd] findPoint_miss [of kd] by auto
qed

text \<open>Three points: one in element 10, one in element 20, one that misses the mesh.\<close>

theorem getElements_finds_witness:
  "d_node_dim ex_facade \<in> {1, 2, 3} \<and> d_kdtree ex_facade = Some ex_kdtree \<and>
   length [1 / 4, 3 / 4, 2, 0, 1, 5 :: real] = d_node_dim ex_facade * 3 \<and>
   getElements ex_facade [1 / 4, 3 / 4, 2, 0, 1, 5] = Inr [10, 20, - 1]"
proof -
  let ?cs = "[1 / 4, 3 / 4, 2, 0, 1, 5 :: real]"
  have h1: "d_node_dim ex_facade \<in> {1, 2, 3}" by (simp add: ex_facade_def)
  have h2: "d_kdtree ex_facade = Some ex_kdtree" by (simp add: ex_facade_def)
  have h3: "length ?cs = d_node_dim ex_facade * 3" by (simp add: ex_facade_def)
  from getElements_finds [OF h1 h2 h3] obtain ids where
    p: "getElements ex_facade ?cs = Inr ids" "length ids = 3"
       "\<forall>n<3. ids ! n = findPoint ex_kdtree (blocked_point (d_node_dim ex_facade) ?cs 3 n)"
    by blast
  have bp: "blocked_point 2 ?cs 3 0 = [1 / 4, 0]" "blocked_point 2 ?cs 3 1 = [3 / 4, 1]"
    "blocked_point 2 ?cs 3 2 = [2, 5]"
    by (simp_all add: blocked_point_def upt_rec)
  have "ids ! 0 = 10"
    using p(3) [rule_format, of 0] bp(1) by (simp add: ex_facade_def ex_kdtree_def findPoint_def)
  moreover have "ids ! 1 = 20"
    using p(3) [rule_format, of 1] bp(2) by (simp add: ex_facade_def ex_kdtree_def findPoint_def)
  moreover have "ids ! 2 = - 1"
    using p(3) [rule_format, of 2] bp(3) by (simp add: ex_facade_def ex_kdtree_def findPoint_def)
  ultimately have "ids = [10, 20, - 1]"
    using p(2) by (auto simp: length_Suc_conv numeral_3_eq_3)
  with p(1) h1 h2 h3 show ?thesis by simp
qed

subsection \<open>The division by the node dimension\<close>

text \<open>
  Claim C9. The constructor leaves \<open>d_node_dim\<close> at 0. Each query divides the length of
  its input by \<open>d_node_dim\<close>: it takes the division-by-zero branch exactly when
  \<open>d_node_dim\<close> is 0, so on a fresh facade it does, and once \<open>d_node_dim\<close> is 1, 2 or 3
  it does not.
\<close>

theorem queries_need_node_dim:
  "d_node_dim (new_Rendezvous comm box) = 0 \<and>
   (getRendezvousProcs r cs = Inl DivideByZero \<longleftrightarrow> d_node_dim r = 0) \<and>
   (getElements r cs = Inl DivideByZero \<longleftrightarrow> d_node_dim r = 0)"
proof (intro conjI iffI)
  show "d_node_dim (new_Rendezvous comm box) = 0"
    by (simp add: new_Rendezvous_def)
  show "d_node_dim r = 0" if "getRendezvousProcs r cs = Inl DivideByZero"
    using getRendezvousProcs_error [OF that] by auto
  show "d_node_dim r = 0" if "getElements r cs = Inl DivideByZero"
    using getElements_error [OF that] by auto
  show "getRendezvousProcs r cs = Inl DivideByZero" if "d_node_dim r = 0"
    using that by (simp add: getRendezvousProcs_def)
  show "getElements r cs = Inl DivideByZero" if "d_node_dim r = 0"
    using that by (simp add: getElements_def)
qed

text \<open>A fresh facade against a built one.\<close>

theorem queries_need_node_dim_witness:
  "getRendezvousProcs (new_Rendezvous \<lparr> comm_size = 2, comm_rank = 0 \<rparr> ex_box) [1 / 4, 0]
     = Inl DivideByZero \<and>
   getElements (new_Rendezvous \<lparr> comm_size = 2, comm_rank = 0 \<rparr> ex_box) [1 / 4, 0]
     = Inl DivideByZero \<and>
   d_node_dim ex_facade = 2 \<and>
   getRendezvousProcs ex_facade [1 / 4, 0] \<noteq> Inl DivideByZero \<and>
   getElements ex_facade [1 / 4, 0] \<noteq> Inl DivideByZero"
  using queries_need_node_dim [of "\<lparr> comm_size = 2, comm_rank = 0 \<rparr>" ex_box
      "new_Rendezvous \<lparr> comm_size = 2, comm_rank = 0 \<rparr> ex_box" "[1 / 4, 0]"]
    queries_need_node_dim [of "\<lparr> comm_size = 2, comm_rank = 0 \<rparr>" ex_box ex_facade "[1 / 4, 0]"]
  by (simp add: ex_facade_def)

subsection \<open>Inputs that are not whole points\<close>

lemma padded_point_take:
  assumes "k \<le> ndim" "n < N"
  shows "padded_point k (take (ndim * N) cs) N n = padded_point k cs N n"
    and "blocked_point k (take (ndim * N) cs) N n = blocked_point k cs N n"
proof -
  have "d * N + n < ndim * N" if "d < k" for d
  proof -
    have "d * N + n < Suc d * N" using assms(2) by simp
    also have "\<dots> \<le> ndim * N" using that assms(1) by (intro mult_le_mono1) simp
    finally show ?thesis .
  qed
  then show "blocked_point k (take (ndim * N) cs) N n = blocked_point k cs N n"
    by (simp add: blocked_point_def)
  then show "padded_point k (take (ndim * N) cs) N n = padded_point k cs N n"
    by (simp add: padded_point_def)
qed

text \<open>
  Claim C10. On a built facade both queries return normally for every input, of whatever
  length. With \<open>N = length coords div d_node_dim\<close>, the output has exactly \<open>N\<close> entries;
  entry \<open>n\<close> is the partitioner's destination (the kD-tree's element) for the point whose
  axis \<open>k\<close> is \<open>coords[k * N + n]\<close>, so exactly \<open>N\<close> points are processed, read from the
  first \<open>d_node_dim * N\<close> values. The trailing \<open>length coords mod d_node_dim\<close> values are
  ignored: every input with the same \<open>N\<close> and the same first \<open>d_node_dim * N\<close> values,
  the truncated input among them, gives the same output.
\<close>

theorem queries_truncate:
  assumes "d_node_dim r \<in> {1, 2, 3}" and "d_rcb r = Some rcb" and "d_kdtree r = Some kd"
  shows "\<exists>procs ids.
           getRendezvousProcs r cs = Inr procs \<and> length procs = length cs div d_node_dim r \<and>
           (\<forall>n<length cs div d_node_dim r.
              procs ! n = getDestinationProc rcb
                            (padded_point (d_node_dim r) cs (length cs div d_node_dim r) n)) \<and>
           getElements r cs = Inr ids \<and> length ids = length cs div d_node_dim r \<and>
           (\<forall>n<length cs div d_node_dim r.
              ids ! n = findPoint kd
                          (blocked_point (d_node_dim r) cs (length cs div d_node_dim r) n)) \<and>
           (\<forall>cs'. length cs' div d_node_dim r = length cs div d_node_dim r \<and>
                  take (d_node_dim r * (length cs div d_node_dim r)) cs'
                    = take (d_node_dim r * (length cs div d_node_dim r)) cs \<longrightarrow>
                  getRendezvousProcs r cs' = Inr procs \<and> getElements r cs' = Inr ids) \<and>
           getRendezvousProcs r (take (d_node_dim r * (length cs div d_node_dim r)) cs)
             = Inr procs \<and>
           getElements r (take (d_node_dim r * (length cs div d_node_dim r)) cs) = Inr ids"
proof -
  let ?d = "d_node_dim r"
  let ?N = "length cs div ?d"
  let ?procs = "map (\<lambda>n. getDestinationProc rcb (padded_point ?d cs ?N n)) [0..<?N]"
  let ?ids = "map (\<lambda>n. findPoint kd (blocked_point ?d cs ?N n)) [0..<?N]"
  have nd: "0 < ?d" "?d \<le> 3"
    using assms(1) by auto
  have p: "getRendezvousProcs r cs = Inr ?procs"
    by (rule getRendezvousProcs_built [OF nd assms(2)])
  have e: "getElements r cs = Inr ?ids"
    by (rule getElements_built [OF nd(1) assms(3)])
  have same: "getRendezvousProcs r cs' = Inr ?procs \<and> getElements r cs' = Inr ?ids"
    if N': "length cs' div ?d = ?N" and tk: "take (?d * ?N) cs' = take (?d * ?N) cs" for cs'
  proof -
    have pp: "padded_point ?d cs' ?N n = padded_point ?d cs ?N n"
      and bp: "blocked_point ?d cs' ?N n = blocked_point ?d cs ?N n" if "n < ?N" for n
      using padded_point_take [OF le_refl that, of ?d cs'] padded_point_take [OF le_refl that, of ?d cs]
      by (simp_all add: tk)
    have "getRendezvousProcs r cs'
            = Inr (map (\<lambda>n. getDestinationProc rcb (padded_point ?d cs' ?N n)) [0..<?N])"
      using getRendezvousProcs_built [OF nd assms(2), of cs'] unfolding N' .
    moreover have "getElements r cs'
            = Inr (map (\<lambda>n. findPoint kd (blocked_point ?d cs' ?N n)) [0..<?N])"
      using getElements_built [OF nd(1) assms(3), of cs'] unfolding N' .
    ultimately show ?thesis
      by (simp add: pp bp)
  qed
  have trunc: "getRendezvousProcs r (take (?d * ?N) cs) = Inr ?procs \<and>
               getElements r (take (?d * ?N) cs) = Inr ?ids"
  proof (rule same)
    have "length (take (?d * ?N) cs) = ?d * ?N" by simp
    then show "length (take (?d * ?N) cs) div ?d = ?N"
      using nd(1) by simp
    show "take (?d * ?N) (take (?d * ?N) cs) = take (?d * ?N) cs" by simp
  qed
  show ?thesis
    apply (rule exI [of _ ?procs])
    apply (rule exI [of _ ?ids])
    using p e same trunc apply simp
    done
qed

text \<open>
  Five values in two dimensions: two points with stride 2; the fifth value is dropped,
  whatever it is.
\<close>

theorem queries_truncate_witness:
  "d_node_dim ex_facade \<in> {1, 2, 3} \<and> d_rcb ex_facade = Some ex_rcb \<and>
   d_kdtree ex_facade = Some ex_kdtree \<and>
   length [1 / 4, 3 / 4, 2, 0, 1 :: real] mod d_node_dim ex_facade = 1 \<and>
   getRendezvousProcs ex_facade [1 / 4, 3 / 4, 2, 0, 1] = Inr [0, 1] \<and>
   getElements ex_facade [1 / 4, 3 / 4, 2, 0, 1] = Inr [10, 20] \<and>
   getRendezvousProcs ex_facade [1 / 4, 3 / 4, 2, 0] = Inr [0, 1] \<and>
   getElements ex_facade [1 / 4, 3 / 4, 2, 0] = Inr [10, 20] \<and>
   getRendezvousProcs ex_facade [1 / 4, 3 / 4, 2, 0, 7] = Inr [0, 1] \<and>
   getElements ex_facade [1 / 4, 3 / 4, 2, 0, 7] = Inr [10, 20]"
proof -
  let ?cs = "[1 / 4, 3 / 4, 2, 0, 1 :: real]"
  let ?cs7 = "[1 / 4, 3 / 4, 2, 0, 7 :: real]"
  have h1: "d_node_dim ex_facade \<in> {1, 2, 3}" by (simp add: ex_facade_def)
  have h2: "d_rcb ex_facade = Some ex_rcb" by (simp add: ex_facade_def)
  have h3: "d_kdtree ex_facade = Some ex_kdtree" by (simp add: ex_facade_def)
  have l: "length ?cs div 2 = 2" by simp
  have m: "length ?cs mod d_node_dim ex_facade = 1" by (simp add: ex_facade_def)
  have d: "d_node_dim ex_facade = 2" by (simp add: ex_facade_def)
  have t: "take (2 * 2) ?cs = [1 / 4, 3 / 4, 2, 0]" by simp
  note th = queries_truncate [OF h1 h2 h3, of ?cs, unfolded d, unfolded l, unfolded t]
  then obtain procs ids where
    run: "getRendezvousProcs ex_facade ?cs = Inr procs" "getElements ex_facade ?cs = Inr ids"
    and len: "length procs = 2" "length ids = 2"
    and pv: "\<forall>n<2. procs ! n = getDestinationProc ex_rcb (padded_point 2 ?cs 2 n)"
    and iv: "\<forall>n<2. ids ! n = findPoint ex_kdtree (blocked_point 2 ?cs 2 n)"
    and any: "\<forall>cs'. length cs' div 2 = 2 \<and> take (2 * 2) cs' = [1 / 4, 3 / 4, 2, 0] \<longrightarrow>
                getRendezvousProcs ex_facade cs' = Inr procs \<and> getElements ex_facade cs' = Inr ids"
    and cut: "getRendezvousProcs ex_facade [1 / 4, 3 / 4, 2, 0] = Inr procs"
      "getElements ex_facade [1 / 4, 3 / 4, 2, 0] = Inr ids"
    by (elim exE conjE) blast
  have bp: "blocked_point 2 ?cs 2 0 = [1 / 4, 2]" "blocked_point 2 ?cs 2 1 = [3 / 4, 0]"
    by (simp_all add: blocked_point_def upt_rec)
  then have pp: "padded_point 2 ?cs 2 0 = [1 / 4, 2, 0]" "padded_point 2 ?cs 2 1 = [3 / 4, 0, 0]"
    by (simp_all add: padded_point_def)
  have "procs ! 0 = 0"
    using pv [rule_format, of 0] pp(1) by (simp add: ex_rcb_def)
  moreover have "procs ! 1 = 1"
    using pv [rule_format, of 1] pp(2) by (simp add: ex_rcb_def)
  ultimately have procs: "procs = [0, 1]"
    using len(1) by (auto simp: length_Suc_conv numeral_2_eq_2)
  have "ids ! 0 = 10"
    using iv [rule_format, of 0] bp(1) by (simp add: ex_kdtree_def findPoint_def)
  moreover have "ids ! 1 = 20"
    using iv [rule_format, of 1] bp(2) by (simp add: ex_kdtree_def findPoint_def)
  ultimately have ids: "ids = [10, 20]"
    using len(2) by (auto simp: length_Suc_conv numeral_2_eq_2)
  have "length ?cs7 div 2 = 2 \<and> take (2 * 2) ?cs7 = [1 / 4, 3 / 4, 2, 0]" by simp
  with any have seven: "getRendezvousProcs ex_facade ?cs7 = Inr procs"
    "getElements ex_facade ?cs7 = Inr ids" by blast+
  from h1 h2 h3 m run cut seven show ?thesis
    unfolding procs ids by blast
qed

section \<open>Claims about the filter\<close>

text \<open>
  Claim C4. On a well-formed mesh \<^verbatim>\<open>getMeshInBox\<close> returns normally; an element is
  flagged in-box exactly when at least one node of its connectivity has its coordinates
  in the box; and every node of a flagged element ends with flag 1, whether or not its
  own coordinates are in the box. A node flag is 1 exactly for the nodes in the box and
  the nodes of an in-box element, and 0 otherwise.
\<close>

theorem getMeshInBox_marks:
  assumes "mesh_ok (d_node_dim r) mesh"
  shows "\<exists>nodes_in_box elements_in_box.
           getMeshInBox r mesh box = Inr (nodes_in_box, elements_in_box) \<and>
           length nodes_in_box = length (mesh_nodes mesh) \<and>
           length elements_in_box = length (mesh_elements mesh) \<and>
           (\<forall>n<length (mesh_elements mesh).
              (elements_in_box ! n \<noteq> 0 \<longleftrightarrow> element_in_box box (d_node_dim r) mesh n) \<and>
              (elements_in_box ! n = 1 \<or> elements_in_box ! n = 0)) \<and>
           (\<forall>n<length (mesh_elements mesh). elements_in_box ! n \<noteq> 0 \<longrightarrow>
              (\<forall>j<length (mesh_nodes mesh).
                 mesh_nodes mesh ! j \<in> set (element_nodes mesh n) \<longrightarrow> nodes_in_box ! j = 1)) \<and>
           (\<forall>j<length (mesh_nodes mesh).
              nodes_in_box ! j =
                (if pointInBox box (node_point (d_node_dim r) mesh j) \<or>
                    (\<exists>n<length (mesh_elements mesh). element_in_box box (d_node_dim r) mesh n \<and>
                        mesh_nodes mesh ! j \<in> set (element_nodes mesh n))
                 then 1 else 0))"
proof -
  from getMeshInBox_ok [OF assms, of box] obtain nodes_in_box where
    run: "getMeshInBox r mesh box
             = Inr (nodes_in_box,
                    map (\<lambda>n. if element_in_box box (d_node_dim r) mesh n then 1 else 0)
                      [0..<length (mesh_elements mesh)])"
    and len: "length nodes_in_box = length (mesh_nodes mesh)"
    and fl: "\<forall>j<length (mesh_nodes mesh).
              nodes_in_box ! j =
                (if pointInBox box (node_point (d_node_dim r) mesh j) \<or>
                    (\<exists>n<length (mesh_elements mesh). element_in_box box (d_node_dim r) mesh n \<and>
                        mesh_nodes mesh ! j \<in> set (element_nodes mesh n))
                 then 1 else 0)"
    by blast
  show ?thesis
    apply (rule exI [of _ nodes_in_box])
    apply (rule exI [of _ "map (\<lambda>n. if element_in_box box (d_node_dim r) mesh n then 1 else 0)
                      [0..<length (mesh_elements mesh)]"])
    using run len fl apply simp
    done
qed

text \<open>
  On the second example mesh node 4 lies outside the box and is flagged all the same,
  as a node of element 12.
\<close>

theorem getMeshInBox_marks_witness:
  "mesh_ok (d_node_dim ex_facade1) ex_mesh1 \<and>
   getMeshInBox ex_facade1 ex_mesh1 ex_box = Inr ([1, 1, 0], [1, 0]) \<and>
   \<not> pointInBox ex_box (node_point (d_node_dim ex_facade1) ex_mesh1 1) \<and>
   element_in_box ex_box (d_node_dim ex_facade1) ex_mesh1 0 \<and>
   mesh_nodes ex_mesh1 ! 1 \<in> set (element_nodes ex_mesh1 0)"
proof -
  note ok = ex_mesh1_ok and run = ex_mesh1_in_box
  from getMeshInBox_marks [OF ok, of ex_box] run
  have iff: "\<forall>n<length (mesh_elements ex_mesh1).
              ([1, 0 :: int] ! n \<noteq> 0 \<longleftrightarrow> element_in_box ex_box (d_node_dim ex_facade1) ex_mesh1 n)"
    and act: "\<forall>j<length (mesh_nodes ex_mesh1).
              [1, 1, 0 :: int] ! j =
                (if pointInBox ex_box (node_point (d_node_dim ex_facade1) ex_mesh1 j) \<or>
                    (\<exists>n<length (mesh_elements ex_mesh1).
                        element_in_box ex_box (d_node_dim ex_facade1) ex_mesh1 n \<and>
                        mesh_nodes ex_mesh1 ! j \<in> set (element_nodes ex_mesh1 n))
                 then 1 else 0)"
    by simp_all
  from iff [rule_format, of 0] have e0: "element_in_box ex_box (d_node_dim ex_facade1) ex_mesh1 0"
    by (simp add: ex_mesh1_def)
  have out: "\<not> pointInBox ex_box (node_point (d_node_dim ex_facade1) ex_mesh1 1)"
    by (simp add: pointInBox_def node_point_def padded_point_def blocked_point_def ex_box_def
          ex_facade1_def ex_mesh1_def)
  have mem: "mesh_nodes ex_mesh1 ! 1 \<in> set (element_nodes ex_mesh1 0)"
    by (simp add: element_nodes_def element_node_def ex_mesh1_def upt_rec)
  from ok run out e0 mem show ?thesis by simp
qed

section \<open>Claims about the import planner\<close>

text \<open>
  Claim C5. The array that \<^verbatim>\<open>setupImportCommunication\<close> makes from imported ordinals is
  strictly ascending, so without duplicates, and holds exactly the imported ordinals,
  whatever their order and multiplicity; hence \<open>rendezvous_nodes\<close> and
  \<open>rendezvous_elements\<close> of every rank are strictly ascending and free of duplicates
  whenever the collective returns.
\<close>

theorem rendezvous_arrays_ascending:
  "sorted_wrt (<) (rendezvous_array imports) \<and> distinct (rendezvous_array imports) \<and>
   set (rendezvous_array imports) = set imports \<and>
   (setupImportCommunication ranks = Inr outs \<longrightarrow>
      length outs = length ranks \<and>
      (\<forall>rank<length ranks.
          sorted_wrt (<) (fst (outs ! rank)) \<and> distinct (fst (outs ! rank)) \<and>
          sorted_wrt (<) (snd (outs ! rank)) \<and> distinct (snd (outs ! rank))))"
proof -
  have asc: "sorted_wrt (<) (rendezvous_array xs) \<and> distinct (rendezvous_array xs)" for xs
    using rendezvous_array_sorted [of xs] by (simp add: strict_sorted_iff)
  have "length outs = length ranks \<and>
      (\<forall>rank<length ranks.
          sorted_wrt (<) (fst (outs ! rank)) \<and> distinct (fst (outs ! rank)) \<and>
          sorted_wrt (<) (snd (outs ! rank)) \<and> distinct (snd (outs ! rank)))"
    if "setupImportCommunication ranks = Inr outs"
    using setupImportCommunication_arrays [OF that] asc by fastforce
  with asc [of "imports"] rendezvous_array_set [of "imports"] show ?thesis by blast
qed

text \<open>The two example ranks; node 3 and element 11 arrive more than once.\<close>

theorem rendezvous_arrays_ascending_witness:
  "setupImportCommunication ex_ranks = Inr ex_outs \<and>
   rendezvous_array [3, 2, 3, 4, 2] = [2, 3, 4] \<and>
   ex_outs ! 1 = ([2, 3, 4], [11, 12]) \<and>
   sorted_wrt (<) (fst (ex_outs ! 0)) \<and> sorted_wrt (<) (snd (ex_outs ! 0)) \<and>
   sorted_wrt (<) (fst (ex_outs ! 1)) \<and> sorted_wrt (<) (snd (ex_outs ! 1))"
proof -
  have "rendezvous_array [3, 2, 3, 4, 2] = [2, 3, 4]"
    by code_simp
  moreover have "ex_outs ! 1 = ([2, 3, 4], [11, 12])"
    by (simp add: ex_outs_def)
  moreover have "0 < length ex_ranks" "1 < length ex_ranks"
    by (simp_all add: ex_ranks_def)
  ultimately show ?thesis
    using rendezvous_arrays_ascending [of "[3, 2, 3, 4, 2]" ex_ranks ex_outs] ex_setup
    by blast
qed

text \<open>
  Claim C1. When the collective returns and element ordinals are unique across the
  ranks, every element \<open>e\<close> in \<open>rendezvous_elements\<close> of a rank is an element of some
  source mesh, and every node of \<open>e\<close> (the entries of its connectivity on the rank that
  holds it) is in \<open>rendezvous_nodes\<close> of the same rank.
\<close>

theorem elements_arrive_with_their_nodes:
  assumes "setupImportCommunication ranks = Inr outs"
    and "distinct (concat (map (\<lambda>(r, mesh, elements_in_box). mesh_elements mesh) ranks))"
    and "rank < length ranks" and "e \<in> set (snd (outs ! rank))"
  shows "(\<exists>s<length ranks. e \<in> set (mesh_elements (fst (snd (ranks ! s))))) \<and>
         (\<forall>s<length ranks. \<forall>n<length (mesh_elements (fst (snd (ranks ! s)))).
             mesh_elements (fst (snd (ranks ! s))) ! n = e \<longrightarrow>
             set (element_nodes (fst (snd (ranks ! s))) n) \<subseteq> set (fst (outs ! rank)))"
proof -
  from assms(1) obtain export_elements import_elements export_nodes import_nodes where
    ee: "list_all2 (\<lambda>x y. (case x of (r, mesh, elements_in_box) \<Rightarrow>
                         export_elements_of r mesh elements_in_box) = Inr y)
       ranks export_elements"
    and de: "distributor (length ranks) export_elements = Inr import_elements"
    and en: "list_all2 (\<lambda>x y. (case x of ((r, mesh, elements_in_box), exports) \<Rightarrow>
                         export_nodes_of mesh exports) = Inr y)
       (zip ranks export_elements) export_nodes"
    and dn: "distributor (length ranks) export_nodes = Inr import_nodes"
    and outs: "outs = map (\<lambda>(nodes, elements). (rendezvous_array nodes, rendezvous_array elements))
              (zip import_nodes import_elements)"
    by (rule setupImportCommunication_Inr)
  from distributor_Inr [OF de] have lie: "length import_elements = length ranks"
    and ie: "set (import_elements ! rank) = {g. \<exists>ex \<in> set export_elements. (g, int rank) \<in> set ex}"
    using assms(3) by simp_all
  from distributor_Inr [OF dn] have lin: "length import_nodes = length ranks"
    and inn: "set (import_nodes ! rank) = {g. \<exists>ex \<in> set export_nodes. (g, int rank) \<in> set ex}"
    using assms(3) by simp_all
  have lee: "length export_elements = length ranks"
    using ee by (simp add: list_all2_lengthD)
  have len: "length export_nodes = length ranks"
    using en lee by (auto dest: list_all2_lengthD)
  from outs lie lin assms(3)
  have out: "outs ! rank = (rendezvous_array (import_nodes ! rank), rendezvous_array (import_elements ! rank))"
    by simp
  from assms(4) have "e \<in> set (import_elements ! rank)"
    by (simp add: out rendezvous_array_set)
  then obtain ex0 where "ex0 \<in> set export_elements" and ex0: "(e, int rank) \<in> set ex0"
    unfolding ie by blast
  then obtain s where s: "s < length ranks" and ex: "(e, int rank) \<in> set (export_elements ! s)"
    using lee by (auto simp: in_set_conv_nth)
  obtain r mesh eib where rs: "ranks ! s = (r, mesh, eib)"
    by (cases "ranks ! s") auto
  from ee s rs have ee_s: "export_elements_of r mesh eib = Inr (export_elements ! s)"
    by (auto simp: list_all2_conv_all_nth)
  from en s lee rs have en_s: "export_nodes_of mesh (export_elements ! s) = Inr (export_nodes ! s)"
    by (auto simp: list_all2_conv_all_nth)
  from export_nodes_cover [OF en_s ex] obtain idx where
    idx: "idx < length (mesh_elements mesh)" "mesh_elements mesh ! idx = e"
    and cover: "\<forall>g \<in> set (element_nodes mesh idx). (g, int rank) \<in> set (export_nodes ! s)"
    by blast
  have arrive: "set (element_nodes mesh idx) \<subseteq> set (fst (outs ! rank))"
  proof
    fix g assume "g \<in> set (element_nodes mesh idx)"
    with cover have "(g, int rank) \<in> set (export_nodes ! s)" by blast
    moreover have "export_nodes ! s \<in> set export_nodes"
      using s len by simp
    ultimately have "g \<in> set (import_nodes ! rank)"
      unfolding inn by blast
    then show "g \<in> set (fst (outs ! rank))"
      by (simp add: out rendezvous_array_set)
  qed
  have first: "\<exists>s<length ranks. e \<in> set (mesh_elements (fst (snd (ranks ! s))))"
    using s rs idx by (intro exI [of _ s]) auto
  let ?ess = "map (\<lambda>(r, mesh, elements_in_box). mesh_elements mesh) ranks"
  have nth_ess: "?ess ! t = mesh_elements (fst (snd (ranks ! t)))" if "t < length ranks" for t
    using that by (simp add: split_def)
  have second: "set (element_nodes (fst (snd (ranks ! t))) n) \<subseteq> set (fst (outs ! rank))"
    if t: "t < length ranks" and n: "n < length (mesh_elements (fst (snd (ranks ! t))))"
      and eq: "mesh_elements (fst (snd (ranks ! t))) ! n = e" for t n
  proof -
    have "t = s \<and> n = idx"
    proof (rule distinct_concat_nth [OF assms(2)])
      show "t < length ?ess" "s < length ?ess" using t s by simp_all
      show "n < length (?ess ! t)" using n by (simp only: nth_ess [OF t])
      show "idx < length (?ess ! s)" using idx(1) rs by (simp only: nth_ess [OF s] fst_conv snd_conv)
      show "?ess ! t ! n = ?ess ! s ! idx"
        using eq idx(2) rs by (simp only: nth_ess [OF t] nth_ess [OF s] fst_conv snd_conv)
    qed
    with arrive rs show ?thesis by simp
  qed
  from first second show ?thesis by blast
qed

text \<open>
  Element 11 of rank 0 straddles the cut: it arrives on rank 1 together with its nodes
  2 and 3, although node 2 itself routes to rank 0.
\<close>

theorem elements_arrive_with_their_nodes_witness:
  "setupImportCommunication ex_ranks = Inr ex_outs \<and>
   distinct (concat (map (\<lambda>(r, mesh, elements_in_box). mesh_elements mesh) ex_ranks)) \<and>
   (1::nat) < length ex_ranks \<and>
   11 \<in> set (snd (ex_outs ! 1)) \<and>
   mesh_elements (fst (snd (ex_ranks ! 0))) ! 1 = 11 \<and>
   element_nodes (fst (snd (ex_ranks ! 0))) 1 = [2, 3] \<and>
   set (element_nodes (fst (snd (ex_ranks ! 0))) 1) \<subseteq> set (fst (ex_outs ! 1))"
proof -
  have h3: "(1::nat) < length ex_ranks" by (simp add: ex_ranks_def)
  have h4: "11 \<in> set (snd (ex_outs ! 1))" by (simp add: ex_outs_def)
  have el: "mesh_elements (fst (snd (ex_ranks ! 0))) ! 1 = 11"
    by (simp add: ex_ranks_def ex_mesh0_def)
  have ns: "element_nodes (fst (snd (ex_ranks ! 0))) 1 = [2, 3]"
    by (simp add: ex_ranks_def ex_mesh0_def element_nodes_def element_node_def upt_rec)
  have l: "0 < length ex_ranks" "1 < length (mesh_elements (fst (snd (ex_ranks ! 0))))"
    by (simp_all add: ex_ranks_def ex_mesh0_def)
  from elements_arrive_with_their_nodes [OF ex_setup ex_ranks_distinct h3 h4]
  have "set (element_nodes (fst (snd (ex_ranks ! 0))) 1) \<subseteq> set (fst (ex_outs ! 1))"
    using l el by blast
  with ex_setup ex_ranks_distinct h3 h4 el ns show ?thesis by blast
qed

text \<open>
  Claim C3. On a mesh with well-formed connectivity, for exported pairs whose elements are elements of the
  mesh, phase 4 returns normally one ascending set of ranks per local node, and the set
  of node \<open>j\<close> is exactly the set of the ranks \<open>p\<close> of the exported pairs \<open>(element, p)\<close>
  whose element has node \<open>j\<close> in its connectivity. The computation takes only the mesh
  and the exported pairs: the partitioner is not consulted.
\<close>

theorem node_destinations_follow_elements:
  assumes "connectivity_ok mesh" and "\<forall>(e, p) \<in> set exports. e \<in> set (mesh_elements mesh)"
  shows "\<exists>procs_set.
           export_node_procs_set mesh exports = Inr procs_set \<and>
           length procs_set = length (mesh_nodes mesh) \<and>
           (\<forall>j<length (mesh_nodes mesh).
              sorted_wrt (<) (procs_set ! j) \<and>
              set (procs_set ! j) =
                {p. \<exists>n<length (mesh_elements mesh).
                       (mesh_elements mesh ! n, p) \<in> set exports \<and>
                       mesh_nodes mesh ! j \<in> set (element_nodes mesh n)})"
proof -
  let ?N = "length (mesh_nodes mesh)"
  let ?E = "length (mesh_elements mesh)"
  from export_node_procs_set_total [OF assms] obtain sets where
    run: "export_node_procs_set mesh exports = Inr sets" by blast
  from export_node_procs_set_Inr [OF run] have len: "length sets = ?N"
    and srt: "\<forall>s \<in> set sets. sorted_wrt (<) s"
    and mem: "\<forall>j<?N. set (sets ! j) =
              {p. \<exists>e idx. (e, p) \<in> set exports \<and> find_index (element_indices mesh) e = Inr idx \<and>
                     (\<exists>i<nodesPerElement mesh. node_index_of mesh i idx = Inr j)}"
    by simp_all
  have "sorted_wrt (<) (sets ! j) \<and>
        set (sets ! j) = {p. \<exists>n<?E. (mesh_elements mesh ! n, p) \<in> set exports \<and>
                       mesh_nodes mesh ! j \<in> set (element_nodes mesh n)}"
    if j: "j < ?N" for j
  proof -
    have "{p. \<exists>e idx. (e, p) \<in> set exports \<and> find_index (element_indices mesh) e = Inr idx \<and>
                     (\<exists>i<nodesPerElement mesh. node_index_of mesh i idx = Inr j)}
          = {p. \<exists>n<?E. (mesh_elements mesh ! n, p) \<in> set exports \<and>
                       mesh_nodes mesh ! j \<in> set (element_nodes mesh n)}"
      (is "?L = ?R")
    proof (intro set_eqI iffI)
      fix p assume "p \<in> ?L"
      then obtain e idx i where ex: "(e, p) \<in> set exports"
        and idx: "find_index (element_indices mesh) e = Inr idx"
        and i: "i < nodesPerElement mesh" and ni: "node_index_of mesh i idx = Inr j"
        by blast
      from idx have "idx < ?E" "mesh_elements mesh ! idx = e"
        by (auto simp: element_indices_def dest: find_index_Inr)
      moreover from node_index_of_Inr [OF ni] i
      have "mesh_nodes mesh ! j \<in> set (element_nodes mesh idx)"
        by (auto simp: in_element_nodes_iff)
      ultimately show "p \<in> ?R" using ex by blast
    next
      fix p assume "p \<in> ?R"
      then obtain n where n: "n < ?E" and ex: "(mesh_elements mesh ! n, p) \<in> set exports"
        and g: "mesh_nodes mesh ! j \<in> set (element_nodes mesh n)" by blast
      from g obtain i where i: "i < nodesPerElement mesh" "element_node mesh n i = mesh_nodes mesh ! j"
        by (auto simp: in_element_nodes_iff)
      from node_index_of_unique [OF assms(1) j i(1) n] i(2)
      have "node_index_of mesh i n = Inr j" by simp
      with find_element_index [OF assms(1) n] ex i(1) show "p \<in> ?L" by blast
    qed
    with mem j srt len show ?thesis by simp
  qed
  with run len show ?thesis by blast
qed

text \<open>
  On rank 0 node 2 routes to rank 0 by its own coordinates, and goes to ranks 0 and 1
  because element 11 does.
\<close>

theorem node_destinations_follow_elements_witness:
  "connectivity_ok ex_mesh0 \<and>
   fst ` set ex_exports0 = {10, 11} \<and> set (mesh_elements ex_mesh0) = {10, 11} \<and>
   export_node_procs_set ex_mesh0 ex_exports0 = Inr [[0], [0, 1], [0, 1]] \<and>
   getDestinationProc ex_rcb (node_point 1 ex_mesh0 1) = 0 \<and>
   {0, 1 :: int} = {p. \<exists>n<length (mesh_elements ex_mesh0).
                  (mesh_elements ex_mesh0 ! n, p) \<in> set ex_exports0 \<and>
                  mesh_nodes ex_mesh0 ! 1 \<in> set (element_nodes ex_mesh0 n)}"
proof -
  have h2: "\<forall>(e, p) \<in> set ex_exports0. e \<in> set (mesh_elements ex_mesh0)"
    by (simp add: ex_mesh0_def ex_exports0_def)
  have own: "getDestinationProc ex_rcb (node_point 1 ex_mesh0 1) = 0"
    by (simp add: ex_rcb_def node_point_def padded_point_def blocked_point_def ex_mesh0_def)
  have j: "1 < length (mesh_nodes ex_mesh0)" by (simp add: ex_mesh0_def)
  from node_destinations_follow_elements [OF ex_mesh0_connectivity h2] ex_mesh0_node_sets
  have "\<forall>j<length (mesh_nodes ex_mesh0).
          set ([[0], [0, 1], [0, 1 :: int]] ! j) =
            {p. \<exists>n<length (mesh_elements ex_mesh0).
                  (mesh_elements ex_mesh0 ! n, p) \<in> set ex_exports0 \<and>
                  mesh_nodes ex_mesh0 ! j \<in> set (element_nodes ex_mesh0 n)}"
    by simp
  from this [rule_format, OF j]
  have "{0, 1 :: int} = {p. \<exists>n<length (mesh_elements ex_mesh0).
                  (mesh_elements ex_mesh0 ! n, p) \<in> set ex_exports0 \<and>
                  mesh_nodes ex_mesh0 ! 1 \<in> set (element_nodes ex_mesh0 n)}"
    by simp
  moreover have "fst ` set ex_exports0 = {10, 11}" "set (mesh_elements ex_mesh0) = {10, 11}"
    by (simp_all add: ex_exports0_def ex_mesh0_def)
  ultimately show ?thesis
    using ex_mesh0_connectivity ex_mesh0_node_sets own by blast
qed



end
